theory Spec2Isabelle
  imports Main
begin

section \<open>Strings\<close>

text \<open>
  A Python \<open>str\<close> is a sequence of Unicode code points and \<open>len\<close> counts code points,
  so a string is a list of code points here.  ASCII literals are written \<open>u ''...''\<close>.
\<close>

type_synonym ustr = "nat list"

abbreviation u :: "string \<Rightarrow> ustr" where
  "u s \<equiv> map of_char s"

definition is_space :: "nat \<Rightarrow> bool" where
  \<comment> \<open>The whitespace test of CPython, used both by \<open>str.strip()\<close> and by \<open>\s\<close> in a
      \<open>str\<close> pattern.\<close>
  "is_space c \<longleftrightarrow>
     (9 \<le> c \<and> c \<le> 13) \<or> (28 \<le> c \<and> c \<le> 32) \<or> c = 133 \<or> c = 160 \<or> c = 5760 \<or>
     (8192 \<le> c \<and> c \<le> 8202) \<or> c = 8232 \<or> c = 8233 \<or> c = 8239 \<or> c = 8287 \<or> c = 12288"

definition strip :: "ustr \<Rightarrow> ustr" where
  \<comment> \<open>\<open>s.strip()\<close>\<close>
  "strip s = rev (dropWhile is_space (rev (dropWhile is_space s)))"

fun join :: "ustr \<Rightarrow> ustr list \<Rightarrow> ustr" where
  \<comment> \<open>\<open>sep.join(xs)\<close>\<close>
  "join sep [] = []"
| "join sep [x] = x"
| "join sep (x # y # ys) = x @ sep @ join sep (y # ys)"

section \<open>Text chunker: \<open>ElevenLabsSwedishTTS.split_text\<close> (elevenlabs\_tts.py)\<close>

definition is_term :: "nat \<Rightarrow> bool" where
  \<comment> \<open>the character class \<open>[.!?]\<close>\<close>
  "is_term c \<longleftrightarrow> c = 46 \<or> c = 33 \<or> c = 63"

definition match_at :: "ustr \<Rightarrow> nat option" where
  \<comment> \<open>Length of the match of \<open>[.!?]+\s+\<close> anchored at the head of the string, if any.
      Both repetitions are greedy and the two classes are disjoint, so backtracking
      finds nothing that the longest runs do not.\<close>
  "match_at s =
     (let ts = takeWhile is_term s;
          ws = takeWhile is_space (dropWhile is_term s)
      in if ts \<noteq> [] \<and> ws \<noteq> [] then Some (length ts + length ws) else None)"

fun re_split :: "ustr \<Rightarrow> ustr list" where
  \<comment> \<open>\<open>re.split(r'[.!?]+\s+', text)\<close>: the pieces between the successive leftmost
      matches.  A match has at least two characters, so \<open>drop (n - 1) cs\<close> is
      \<open>drop n (c # cs)\<close>.\<close>
  "re_split [] = [[]]"
| "re_split (c # cs) =
     (case match_at (c # cs) of
        Some n \<Rightarrow> [] # re_split (drop (n - 1) cs)
      | None \<Rightarrow> (case re_split cs of [] \<Rightarrow> [[c]] | p # ps \<Rightarrow> (c # p) # ps))"

fun split_loop :: "int \<Rightarrow> ustr list \<Rightarrow> ustr \<Rightarrow> ustr list \<Rightarrow> ustr list \<times> ustr" where
  \<comment> \<open>The \<open>for sentence in sentences\<close> loop; the state is \<open>(chunks, current_chunk)\<close>.\<close>
  "split_loop max_length chunks current_chunk [] = (chunks, current_chunk)"
| "split_loop max_length chunks current_chunk (s # sentences) =
     (let sentence = strip s in
      if sentence = [] then split_loop max_length chunks current_chunk sentences
      else if int (length current_chunk) + int (length sentence) + 2 > max_length
              \<and> current_chunk \<noteq> []
      then split_loop max_length (chunks @ [strip current_chunk]) sentence sentences
      else split_loop max_length chunks
             (if current_chunk \<noteq> [] then current_chunk @ u ''. '' @ sentence else sentence)
             sentences)"

definition split_text :: "ustr \<Rightarrow> int \<Rightarrow> ustr list" where
  "split_text text max_length =
     (let sentences = re_split text;
          (chunks, current_chunk) = split_loop max_length [] [] sentences
      in if strip current_chunk \<noteq> [] then chunks @ [strip current_chunk] else chunks)"

definition sentences_of :: "ustr \<Rightarrow> ustr list" where
  \<comment> \<open>The sentences the loop works on: the pieces, stripped, the empty ones skipped.\<close>
  "sentences_of text = filter (\<lambda>s. s \<noteq> []) (map strip (re_split text))"

subsection \<open>Predicates used in the proofs about the chunker\<close>

definition clean :: "ustr \<Rightarrow> bool" where
  \<comment> \<open>non-empty, with no whitespace at either end: what \<open>strip\<close> leaves\<close>
  "clean s \<longleftrightarrow> s \<noteq> [] \<and> \<not> is_space (hd s) \<and> \<not> is_space (last s)"

fun no_boundary :: "ustr \<Rightarrow> bool" where
  \<comment> \<open>no sentence terminator is directly followed by whitespace\<close>
  "no_boundary [] \<longleftrightarrow> True"
| "no_boundary [c] \<longleftrightarrow> True"
| "no_boundary (c # d # cs) \<longleftrightarrow> \<not> (is_term c \<and> is_space d) \<and> no_boundary (d # cs)"

definition inner_piece :: "ustr \<Rightarrow> bool" where
  \<comment> \<open>what a piece that is followed by a match looks like\<close>
  "inner_piece s \<longleftrightarrow> no_boundary s \<and> (s = [] \<or> \<not> is_term (last s))"

fun pieces_ok :: "ustr list \<Rightarrow> bool" where
  "pieces_ok [] \<longleftrightarrow> True"
| "pieces_ok [s] \<longleftrightarrow> no_boundary s"
| "pieces_ok (s # t # ts) \<longleftrightarrow> inner_piece s \<and> pieces_ok (t # ts)"

definition stable :: "int \<Rightarrow> ustr list \<Rightarrow> bool" where
  \<comment> \<open>the loop keeps these sentences together in one chunk\<close>
  "stable max_length g \<longleftrightarrow> split_loop max_length [] [] g = ([], join (u ''. '') g)"

abbreviation sep :: ustr where
  \<comment> \<open>the separator the loop puts between two sentences of a chunk\<close>
  "sep \<equiv> u ''. ''"

definition good_group :: "int \<Rightarrow> ustr list \<Rightarrow> bool" where
  \<comment> \<open>what the loop guarantees of the sentences of one chunk\<close>
  "good_group max_length g \<longleftrightarrow> g \<noteq> [] \<and> stable max_length g \<and>
     (int (length (join sep g)) \<le> max_length \<or> (\<exists>s. g = [s]))"

section \<open>More string operations\<close>

definition rstrip :: "ustr \<Rightarrow> ustr" where
  \<comment> \<open>\<open>s.rstrip()\<close>\<close>
  "rstrip s = rev (dropWhile is_space (rev s))"

definition startswith :: "ustr \<Rightarrow> ustr \<Rightarrow> bool" where
  \<comment> \<open>\<open>s.startswith(p)\<close>\<close>
  "startswith s p \<longleftrightarrow> take (length p) s = p"

definition endswith :: "ustr \<Rightarrow> ustr \<Rightarrow> bool" where
  \<comment> \<open>\<open>s.endswith(p)\<close>\<close>
  "endswith s p \<longleftrightarrow> length p \<le> length s \<and> drop (length s - length p) s = p"

fun contains :: "ustr \<Rightarrow> ustr \<Rightarrow> bool" where
  \<comment> \<open>\<open>p in s\<close>, written \<open>contains p s\<close>\<close>
  "contains p [] \<longleftrightarrow> p = []"
| "contains p (c # cs) \<longleftrightarrow> startswith (c # cs) p \<or> contains p cs"

function str_of_nat :: "nat \<Rightarrow> ustr" where
  \<comment> \<open>\<open>str(n)\<close> for a non-negative integer: its decimal digits\<close>
  "str_of_nat n = (if n < 10 then [48 + n] else str_of_nat (n div 10) @ [48 + n mod 10])"
  by pat_completeness auto
termination
  by (relation "measure id") auto

section \<open>Parsed HTML: the part of BeautifulSoup the scripts use\<close>

text \<open>
  A parsed document is a tree of tags and strings.  A tag has a name, its classes (the
  \<open>class\<close> attribute, split at whitespace), its other attributes and its children.
  The \<open>BeautifulSoup\<close> object itself is the tag at the root.
\<close>

datatype node =
    NavigableString ustr
  | Tag ustr "ustr list" "(ustr \<times> ustr) list" "node list"

fun get_text :: "node \<Rightarrow> ustr" where
  \<comment> \<open>\<open>tag.text\<close>: the strings below the tag, in document order, concatenated\<close>
  "get_text (NavigableString s) = s"
| "get_text (Tag name classes attrs children) = concat (map get_text children)"

fun descendants :: "node \<Rightarrow> node list" where
  \<comment> \<open>everything below a tag, in document order\<close>
  "descendants (NavigableString s) = []"
| "descendants (Tag name classes attrs children) =
     concat (map (\<lambda>c. c # descendants c) children)"

fun has_name :: "ustr \<Rightarrow> node \<Rightarrow> bool" where
  "has_name n (NavigableString s) \<longleftrightarrow> False"
| "has_name n (Tag name classes attrs children) \<longleftrightarrow> name = n"

fun has_class :: "ustr \<Rightarrow> node \<Rightarrow> bool" where
  "has_class c (NavigableString s) \<longleftrightarrow> False"
| "has_class c (Tag name classes attrs children) \<longleftrightarrow> c \<in> set classes"

fun get_attr :: "node \<Rightarrow> ustr \<Rightarrow> ustr option" where
  \<comment> \<open>\<open>tag.get(key)\<close>: \<open>None\<close> when the tag has no such attribute\<close>
  "get_attr (NavigableString s) key = None"
| "get_attr (Tag name classes attrs children) key = map_of attrs key"

definition find_all :: "node \<Rightarrow> ustr \<Rightarrow> node list" where
  \<comment> \<open>\<open>tag.find_all(name)\<close>\<close>
  "find_all t name = filter (has_name name) (descendants t)"

definition find_all_class :: "node \<Rightarrow> ustr \<Rightarrow> ustr \<Rightarrow> node list" where
  \<comment> \<open>\<open>tag.find_all(name, class_=c)\<close>\<close>
  "find_all_class t name c = filter (\<lambda>x. has_name name x \<and> has_class c x) (descendants t)"

definition find_all_href :: "node \<Rightarrow> ustr \<Rightarrow> node list" where
  \<comment> \<open>\<open>tag.find_all(name, href=True)\<close>\<close>
  "find_all_href t name =
     filter (\<lambda>x. has_name name x \<and> get_attr x (u ''href'') \<noteq> None) (descendants t)"

definition first :: "'a list \<Rightarrow> 'a option" where
  "first xs = (case xs of [] \<Rightarrow> None | x # _ \<Rightarrow> Some x)"

definition find_tag :: "node \<Rightarrow> ustr \<Rightarrow> node option" where
  \<comment> \<open>\<open>tag.find(name)\<close>\<close>
  "find_tag t name = first (find_all t name)"

definition find_tag_class :: "node \<Rightarrow> ustr \<Rightarrow> ustr \<Rightarrow> node option" where
  \<comment> \<open>\<open>tag.find(name, class_=c)\<close>\<close>
  "find_tag_class t name c = first (find_all_class t name c)"

definition css_match :: "ustr \<Rightarrow> node \<Rightarrow> bool" where
  \<comment> \<open>The selectors of the configuration are a tag name, or a tag name and a class
      (\<open>h3\<close>, \<open>div.article-card\<close>); 46 is the full stop.\<close>
  "css_match selector x \<longleftrightarrow>
     (let name = takeWhile (\<lambda>c. c \<noteq> 46) selector;
          rest = dropWhile (\<lambda>c. c \<noteq> 46) selector
      in has_name name x \<and> (rest = [] \<or> has_class (tl rest) x))"

definition select :: "node \<Rightarrow> ustr \<Rightarrow> node list" where
  \<comment> \<open>\<open>tag.select(selector)\<close>\<close>
  "select t selector = filter (css_match selector) (descendants t)"

definition select_one :: "node \<Rightarrow> ustr \<Rightarrow> node option" where
  \<comment> \<open>\<open>tag.select_one(selector)\<close>\<close>
  "select_one t selector = first (select t selector)"

section \<open>The world outside: network, clock, speech service, files\<close>

datatype exn =
    RequestException    \<comment> \<open>\<open>requests.RequestException\<close>: connection, timeout\<close>
  | HTTPError           \<comment> \<open>what \<open>raise_for_status()\<close> raises; a \<open>RequestException\<close>\<close>
  | ParserError         \<comment> \<open>an exception raised by the HTML parser\<close>
  | AttributeError
  | KeyError
  | OSError

definition is_request_exception :: "exn \<Rightarrow> bool" where
  \<comment> \<open>what \<open>except requests.RequestException\<close> catches\<close>
  "is_request_exception e \<longleftrightarrow> e = RequestException \<or> e = HTTPError"

record response =
  status_ok :: bool
    \<comment> \<open>\<open>raise_for_status()\<close> does not raise\<close>
  parsed :: "exn + node"
    \<comment> \<open>\<open>BeautifulSoup(response.content, 'html.parser')\<close>: the document, or what the
        parser raises\<close>

text \<open>
  The world is fixed during a run: a URL has one outcome, the clock is read as one value
  per format, and the speech service answers a text and a file name in one way.
\<close>

record world =
  http_get :: "ustr \<Rightarrow> exn + response"
    \<comment> \<open>\<open>requests.get(url)\<close>, \<open>session.get(url, timeout=...)\<close>\<close>
  today :: ustr
    \<comment> \<open>\<open>datetime.now().strftime('%Y-%m-%d')\<close>\<close>
  now_ymd :: ustr
    \<comment> \<open>\<open>datetime.now().strftime('%Y%m%d')\<close>\<close>
  now_stamp :: ustr
    \<comment> \<open>\<open>datetime.now().strftime('%Y%m%d_%H%M%S')\<close>\<close>
  speech_ok :: "ustr \<Rightarrow> ustr \<Rightarrow> bool"
    \<comment> \<open>the speech request for this text succeeds and the audio is written to this
        path\<close>
  getsize :: "ustr \<Rightarrow> nat option"
    \<comment> \<open>\<open>os.path.getsize(path)\<close>, \<open>None\<close> when \<open>os.path.exists(path)\<close> is false\<close>
  isalnum :: "nat \<Rightarrow> bool"
    \<comment> \<open>\<open>c.isalnum()\<close>, from the Unicode character database\<close>
  metadata_write_ok :: bool
    \<comment> \<open>writing the metadata file does not raise\<close>

definition path_join :: "ustr \<Rightarrow> ustr \<Rightarrow> ustr" where
  \<comment> \<open>\<open>os.path.join(a, b)\<close> on POSIX; 47 is the slash\<close>
  "path_join a b =
     (if startswith b [47] then b
      else if a = [] \<or> endswith a [47] then a @ b
      else a @ [47] @ b)"

section \<open>Configuration (config.py)\<close>

definition NEWS_SOURCE_url :: ustr where
  "NEWS_SOURCE_url = u ''https://www.dailysabah.com/columns''"

definition selectors_article_cards :: ustr where
  "selectors_article_cards = u ''div.article-card''"

definition selectors_title :: ustr where
  "selectors_title = u ''h3''"

definition selectors_author :: ustr where
  "selectors_author = u ''div.author-info''"

definition selectors_link :: ustr where
  "selectors_link = u ''a.card''"

definition content_selectors :: "ustr list" where
  \<comment> \<open>\<open>NEWS_SOURCE['selectors']['content']\<close>; news\_tts\_app.py has the same list inline\<close>
  "content_selectors =
     [u ''div.article-content'', u ''div.content'', u ''div.post-content'', u ''article'',
      u ''div.entry-content'']"

definition max_columns_per_day :: nat where
  "max_columns_per_day = 5"

definition output_directory :: ustr where
  "output_directory = u ''audio_files''"

definition output_format :: ustr where
  "output_format = u ''wav''"

section \<open>Content extractor: \<open>get_column_content\<close>\<close>

definition sentinel :: ustr where
  "sentinel = u ''Content could not be extracted''"

definition paragraphs_text :: "node \<Rightarrow> ustr" where
  \<comment> \<open>\<open>'\n'.join([p.text.strip() for p in content_div.find_all('p') if p.text.strip()])\<close>\<close>
  "paragraphs_text content_div =
     join [10] (map (\<lambda>p. strip (get_text p))
                 (filter (\<lambda>p. strip (get_text p) \<noteq> []) (find_all content_div (u ''p''))))"

fun content_loop :: "node \<Rightarrow> ustr list \<Rightarrow> ustr" where
  \<comment> \<open>\<open>content\<close> starts empty; then the loop over the selectors, left at the first selector
      that matches; the same in news\_tts\_app.py and news\_tts\_app\_enhanced.py\<close>
  "content_loop soup [] = []"
| "content_loop soup (selector # selectors) =
     (case select_one soup selector of
        Some content_div \<Rightarrow> paragraphs_text content_div
      | None \<Rightarrow> content_loop soup selectors)"

definition column_content :: "node \<Rightarrow> ustr list \<Rightarrow> ustr" where
  \<comment> \<open>what \<open>get_column_content\<close> returns for a parsed page:
      the content if it is not empty, else the sentinel\<close>
  "column_content soup selectors =
     (let content = content_loop soup selectors
      in if content \<noteq> [] then content else sentinel)"

definition get_column_content_app :: "world \<Rightarrow> ustr \<Rightarrow> ustr option" where
  \<comment> \<open>news\_tts\_app.py: every exception gives \<open>None\<close>; the status is not looked at\<close>
  "get_column_content_app w url =
     (case http_get w url of
        Inl e \<Rightarrow> None
      | Inr response \<Rightarrow>
          (case parsed response of
             Inl e \<Rightarrow> None
           | Inr soup \<Rightarrow> Some (column_content soup content_selectors)))"

definition get_column_content_enhanced :: "world \<Rightarrow> ustr \<Rightarrow> ustr option" where
  \<comment> \<open>news\_tts\_app\_enhanced.py: with \<open>raise_for_status()\<close>; both handlers return
      \<open>None\<close>\<close>
  "get_column_content_enhanced w url =
     (case http_get w url of
        Inl e \<Rightarrow> None
      | Inr response \<Rightarrow>
          if \<not> status_ok response then None
          else (case parsed response of
                  Inl e \<Rightarrow> None
                | Inr soup \<Rightarrow> Some (column_content soup content_selectors)))"

definition get_column_content_scrape :: "world \<Rightarrow> ustr \<Rightarrow> exn + ustr option" where
  \<comment> \<open>scrape\_dailysabah.py: nothing is caught, one fixed container, no paragraph is
      dropped\<close>
  "get_column_content_scrape w url =
     (case http_get w url of
        Inl e \<Rightarrow> Inl e
      | Inr response \<Rightarrow>
          (case parsed response of
             Inl e \<Rightarrow> Inl e
           | Inr soup \<Rightarrow>
               (case find_tag_class soup (u ''div'') (u ''article-content'') of
                  Some content_div \<Rightarrow>
                    Inr (Some (join [10] (map (\<lambda>p. strip (get_text p))
                                            (find_all content_div (u ''p'')))))
                | None \<Rightarrow> Inr None)))"

section \<open>Article lister: \<open>get_daily_sabah_columns\<close>\<close>

record article =
  title :: ustr
  author :: ustr
  url :: ustr
  content :: ustr
  date :: ustr

definition full_url_of :: "ustr \<Rightarrow> ustr" where
  \<comment> \<open>the link itself when it starts with \<open>http\<close>, else the site's origin and the link\<close>
  "full_url_of link =
     (if startswith link (u ''http'') then link else u ''https://www.dailysabah.com'' @ link)"

subsection \<open>news\_tts\_app\_enhanced.py\<close>

definition card_step :: "world \<Rightarrow> node \<Rightarrow> exn + article option" where
  \<comment> \<open>The body of \<open>for card in article_cards\<close>: the article it appends, if any.
      \<open>link_elem.get('href')\<close> is \<open>None\<close> for a link without \<open>href\<close>, and
      \<open>link.startswith\<close> raises then.\<close>
  "card_step w card_tag =
     (let title_elem = select_one card_tag selectors_title;
          author_elem = select_one card_tag selectors_author;
          link_elem = select_one card_tag selectors_link
      in case (title_elem, link_elem) of
           (Some te, Some le) \<Rightarrow>
             (let title = strip (get_text te);
                  author = (case author_elem of
                              Some ae \<Rightarrow> strip (get_text ae)
                            | None \<Rightarrow> u ''Unknown'')
              in case get_attr le (u ''href'') of
                   None \<Rightarrow> Inl AttributeError
                 | Some link \<Rightarrow>
                     (let full_url = full_url_of link;
                          content = get_column_content_enhanced w full_url
                      in case content of
                           Some c \<Rightarrow>
                             if c \<noteq> [] \<and> c \<noteq> sentinel
                             then Inr (Some \<lparr>title = title, author = author, url = full_url,
                                             content = c, date = today w\<rparr>)
                             else Inr None
                         | None \<Rightarrow> Inr None))
         | _ \<Rightarrow> Inr None)"

fun cards_loop :: "world \<Rightarrow> article list \<Rightarrow> node list \<Rightarrow> exn + article list" where
  \<comment> \<open>\<open>for card in article_cards\<close>, with its \<open>break\<close>; the state is \<open>columns_data\<close>\<close>
  "cards_loop w columns_data [] = Inr columns_data"
| "cards_loop w columns_data (card_tag # cards) =
     (case card_step w card_tag of
        Inl e \<Rightarrow> Inl e
      | Inr None \<Rightarrow> cards_loop w columns_data cards
      | Inr (Some a) \<Rightarrow>
          (let columns_data' = columns_data @ [a]
           in if length columns_data' \<ge> max_columns_per_day then Inr columns_data'
              else cards_loop w columns_data' cards))"

definition link_step :: "world \<Rightarrow> node \<Rightarrow> article option" where
  \<comment> \<open>The body of \<open>for link in column_links\<close> (the fallback): the article it appends,
      if any.\<close>
  "link_step w link =
     (case get_attr link (u ''href'') of
        None \<Rightarrow> None
      | Some href \<Rightarrow>
          if href \<noteq> [] \<and> contains (u ''/columns/'') href \<and> \<not> endswith href (u ''/columns'')
          then (let title = strip (get_text link)
                in if length title > 10
                   then (let full_url = full_url_of href;
                             content = get_column_content_enhanced w full_url
                         in case content of
                              Some c \<Rightarrow>
                                if c \<noteq> [] \<and> c \<noteq> sentinel
                                then Some \<lparr>title = title, author = u ''Unknown'', url = full_url,
                                           content = c, date = today w\<rparr>
                                else None
                            | None \<Rightarrow> None)
                   else None)
          else None)"

fun links_loop :: "world \<Rightarrow> article list \<Rightarrow> node list \<Rightarrow> article list" where
  \<comment> \<open>\<open>for link in column_links\<close>, with its \<open>break\<close>\<close>
  "links_loop w columns_data [] = columns_data"
| "links_loop w columns_data (link # links) =
     (case link_step w link of
        None \<Rightarrow> links_loop w columns_data links
      | Some a \<Rightarrow>
          (let columns_data' = columns_data @ [a]
           in if length columns_data' \<ge> max_columns_per_day then columns_data'
              else links_loop w columns_data' links))"

definition get_daily_sabah_columns_enhanced :: "world \<Rightarrow> article list" where
  \<comment> \<open>Both handlers of the \<open>try\<close> return the empty list.\<close>
  "get_daily_sabah_columns_enhanced w =
     (case http_get w NEWS_SOURCE_url of
        Inl e \<Rightarrow> []
      | Inr response \<Rightarrow>
          if \<not> status_ok response then []
          else (case parsed response of
                  Inl e \<Rightarrow> []
                | Inr soup \<Rightarrow>
                    (let article_cards = select soup selectors_article_cards
                     in if article_cards = []
                        then links_loop w [] (find_all_href soup (u ''a''))
                        else (case cards_loop w [] article_cards of
                                Inl e \<Rightarrow> []
                              | Inr columns_data \<Rightarrow> columns_data))))"

subsection \<open>news\_tts\_app.py\<close>

definition card_step_app :: "world \<Rightarrow> node \<Rightarrow> exn + article option" where
  \<comment> \<open>The body of \<open>for article_card in ...\<close>; \<open>link_tag['href']\<close> raises \<open>KeyError\<close>
      for a link without \<open>href\<close>.\<close>
  "card_step_app w article_card =
     (let title_tag = find_tag article_card (u ''h3'');
          author_tag = find_tag_class article_card (u ''div'') (u ''author-info'');
          link_tag = find_tag_class article_card (u ''a'') (u ''card'')
      in case (title_tag, author_tag, link_tag) of
           (Some tt, Some at, Some lt) \<Rightarrow>
             (let title = strip (get_text tt);
                  author = strip (get_text at)
              in case get_attr lt (u ''href'') of
                   None \<Rightarrow> Inl KeyError
                 | Some link \<Rightarrow>
                     (let full_url = full_url_of link;
                          content = get_column_content_app w full_url
                      in case content of
                           Some c \<Rightarrow>
                             if c \<noteq> []
                             then Inr (Some \<lparr>title = title, author = author, url = full_url,
                                             content = c, date = today w\<rparr>)
                             else Inr None
                         | None \<Rightarrow> Inr None))
         | _ \<Rightarrow> Inr None)"

fun cards_loop_app :: "world \<Rightarrow> article list \<Rightarrow> node list \<Rightarrow> exn + article list" where
  "cards_loop_app w columns_data [] = Inr columns_data"
| "cards_loop_app w columns_data (card_tag # cards) =
     (case card_step_app w card_tag of
        Inl e \<Rightarrow> Inl e
      | Inr None \<Rightarrow> cards_loop_app w columns_data cards
      | Inr (Some a) \<Rightarrow> cards_loop_app w (columns_data @ [a]) cards)"

definition get_daily_sabah_columns_app :: "world \<Rightarrow> article list" where
  \<comment> \<open>\<open>return columns_data[:5]\<close>; \<open>except Exception\<close> returns the empty list\<close>
  "get_daily_sabah_columns_app w =
     (case http_get w (u ''https://www.dailysabah.com/columns'') of
        Inl e \<Rightarrow> []
      | Inr response \<Rightarrow>
          (case parsed response of
             Inl e \<Rightarrow> []
           | Inr soup \<Rightarrow>
               (case cards_loop_app w []
                       (find_all_class soup (u ''div'') (u ''article-card'')) of
                  Inl e \<Rightarrow> []
                | Inr columns_data \<Rightarrow> take 5 columns_data)))"

subsection \<open>scrape\_dailysabah.py\<close>

record column =
  col_title :: ustr
  col_author :: ustr
  col_link :: ustr
  col_content :: "ustr option"

definition card_step_scrape :: "world \<Rightarrow> node \<Rightarrow> exn + column option" where
  \<comment> \<open>The link is fetched as it stands; no exception is caught.\<close>
  "card_step_scrape w article_tag =
     (let title_tag = find_tag article_tag (u ''h3'');
          author_tag = find_tag_class article_tag (u ''div'') (u ''author-info'');
          link_tag = find_tag_class article_tag (u ''a'') (u ''card'')
      in case (title_tag, author_tag, link_tag) of
           (Some tt, Some at, Some lt) \<Rightarrow>
             (case get_attr lt (u ''href'') of
                None \<Rightarrow> Inl KeyError
              | Some link \<Rightarrow>
                  (case get_column_content_scrape w link of
                     Inl e \<Rightarrow> Inl e
                   | Inr full_content \<Rightarrow>
                       Inr (Some \<lparr>col_title = strip (get_text tt),
                                  col_author = strip (get_text at),
                                  col_link = link, col_content = full_content\<rparr>)))
         | _ \<Rightarrow> Inr None)"

fun cards_loop_scrape :: "world \<Rightarrow> column list \<Rightarrow> node list \<Rightarrow> exn + column list" where
  "cards_loop_scrape w columns_data [] = Inr columns_data"
| "cards_loop_scrape w columns_data (card_tag # cards) =
     (case card_step_scrape w card_tag of
        Inl e \<Rightarrow> Inl e
      | Inr None \<Rightarrow> cards_loop_scrape w columns_data cards
      | Inr (Some a) \<Rightarrow> cards_loop_scrape w (columns_data @ [a]) cards)"

definition get_daily_sabah_columns_scrape :: "world \<Rightarrow> exn + column list" where
  "get_daily_sabah_columns_scrape w =
     (case http_get w (u ''https://www.dailysabah.com/columns'') of
        Inl e \<Rightarrow> Inl e
      | Inr response \<Rightarrow>
          (case parsed response of
             Inl e \<Rightarrow> Inl e
           | Inr soup \<Rightarrow>
               cards_loop_scrape w [] (find_all_class soup (u ''div'') (u ''article-card''))))"

section \<open>Run orchestrator: \<open>process_daily_columns\<close>\<close>

text \<open>
  What the orchestrator does is recorded as a trace: one event for its call of the
  lister, one for each request to the speech service, and one for each column that the
  loop over the columns reports as failed.
\<close>

datatype event =
    ListColumns             \<comment> \<open>a call of \<open>get_daily_sabah_columns\<close>\<close>
  | Speech ustr ustr        \<comment> \<open>a speech request: the text and the file name\<close>
  | ColumnFailed ustr       \<comment> \<open>the error line of the loop over the columns,
                                \<open>Failed to generate audio for:\<close> and the title\<close>

definition truthy :: "ustr option \<Rightarrow> bool" where
  \<comment> \<open>\<open>if audio_path:\<close> for a path or \<open>None\<close>\<close>
  "truthy p \<longleftrightarrow> (case p of Some s \<Rightarrow> s \<noteq> [] | None \<Rightarrow> False)"

definition text_to_speech :: "world \<Rightarrow> ustr \<Rightarrow> ustr \<Rightarrow> event list \<Rightarrow> ustr option \<times> event list" where
  \<comment> \<open>The same in news\_tts\_app.py and news\_tts\_app\_enhanced.py: the path of the audio
      file, or \<open>None\<close> when the request or the write raises.\<close>
  "text_to_speech w text filename tr =
     (let audio_path = path_join output_directory filename
      in (if speech_ok w text audio_path then Some audio_path else None,
          tr @ [Speech text filename]))"

definition keep_char :: "world \<Rightarrow> nat \<Rightarrow> bool" where
  \<comment> \<open>\<open>c.isalnum() or c in (' ', '-', '_')\<close>\<close>
  "keep_char w c \<longleftrightarrow> isalnum w c \<or> c = 32 \<or> c = 45 \<or> c = 95"

subsection \<open>news\_tts\_app\_enhanced.py\<close>

definition turkish_text_enhanced :: ustr where
  "turkish_text_enhanced =
    [10] @ u ''        Merhaba! Bu, T'' @ [252] @ u ''rk'' @ [231] @
       u ''e metin okuma teknolojisinin bir demosu. '' @ [10] @
       u ''        Yapay zeka teknolojisi sayesinde, yaz'' @ [305] @ u ''l'' @ [305] @
       u '' metinleri do'' @ [287] @ u ''al sesli konu'' @ [351] @ u ''maya d'' @ [246] @
       u ''n'' @ [252, 351] @ u ''t'' @ [252] @ u ''rebiliyoruz. '' @ [10] @
       u ''        Bu teknoloji, haber makalelerini sesli olarak dinlemek i'' @ [231] @
       u ''in kullan'' @ [305] @ u ''labilir.'' @ [10] @ u ''        G'' @ [252] @
       u ''nl'' @ [252] @ u ''k haberler art'' @ [305] @
       u ''k sesli olarak dinlenebilir.'' @ [10] @ u ''        ''"

definition demo_turkish_tts_enhanced :: "world \<Rightarrow> event list \<Rightarrow> ustr option \<times> event list" where
  "demo_turkish_tts_enhanced w tr =
     (let filename = u ''turkish_demo_'' @ now_stamp w @ u ''.'' @ output_format;
          (audio_path, tr') = text_to_speech w turkish_text_enhanced filename tr
      in (if truthy audio_path then audio_path else None, tr'))"

definition create_safe_filename :: "world \<Rightarrow> ustr \<Rightarrow> nat \<Rightarrow> ustr \<Rightarrow> ustr" where
  \<comment> \<open>the format is \<open>{date}_{index}_{title_short}.{ext}\<close>\<close>
  "create_safe_filename w title_arg index date_str =
     (let safe_title = strip (filter (keep_char w) title_arg);
          safe_title = take 30 (map (\<lambda>c. if c = 32 then 95 else c) safe_title)
      in date_str @ u ''_'' @ str_of_nat index @ u ''_'' @ safe_title @ u ''.'' @ output_format)"

record entry =
  entry_title :: ustr
  entry_author :: ustr
  audio_file :: ustr
  original_url :: ustr
  entry_date :: ustr
  file_size :: nat

datatype run_output = Demo ustr | Audio entry

fun columns_loop ::
  "world \<Rightarrow> nat \<Rightarrow> entry list \<Rightarrow> event list \<Rightarrow> article list \<Rightarrow> entry list \<times> event list" where
  \<comment> \<open>\<open>for i, column in enumerate(columns, 1)\<close>; the state is \<open>processed_files\<close> and
      the trace; the \<open>else\<close> branch is \<open>self.logger.error(...)\<close>\<close>
  "columns_loop w i processed_files tr [] = (processed_files, tr)"
| "columns_loop w i processed_files tr (column # columns) =
     (let filename = create_safe_filename w (title column) i (now_ymd w);
          (audio_path, tr') = text_to_speech w (content column) filename tr
      in case audio_path of
           Some p \<Rightarrow>
             if p \<noteq> []
             then columns_loop w (i + 1)
                    (processed_files @
                       [\<lparr>entry_title = title column, entry_author = author column,
                         audio_file = p, original_url = url column, entry_date = date column,
                         file_size = (case getsize w p of Some n \<Rightarrow> n | None \<Rightarrow> 0)\<rparr>])
                    tr' columns
             else columns_loop w (i + 1) processed_files
                    (tr' @ [ColumnFailed (title column)]) columns
         | None \<Rightarrow> columns_loop w (i + 1) processed_files
                     (tr' @ [ColumnFailed (title column)]) columns)"

definition process_daily_columns_enhanced :: "world \<Rightarrow> run_output list \<times> event list" where
  \<comment> \<open>Writing the metadata file is inside a \<open>try\<close> and changes nothing of the result.\<close>
  "process_daily_columns_enhanced w =
     (let columns = get_daily_sabah_columns_enhanced w;
          tr = [ListColumns]
      in if columns = []
         then (let (demo_result, tr') = demo_turkish_tts_enhanced w tr
               in (case demo_result of
                     Some p \<Rightarrow> if p \<noteq> [] then ([Demo p], tr') else ([], tr')
                   | None \<Rightarrow> ([], tr')))
         else (let (processed_files, tr') = columns_loop w 1 [] tr columns
               in (map Audio processed_files, tr')))"

subsection \<open>news\_tts\_app.py\<close>

definition turkish_text_app :: ustr where
  "turkish_text_app =
    [10] @ u ''        Merhaba! Bu, T'' @ [252] @ u ''rk'' @ [231] @
       u ''e metin okuma teknolojisinin bir demosu. '' @ [10] @
       u ''        Yapay zeka teknolojisi sayesinde, yaz'' @ [305] @ u ''l'' @ [305] @
       u '' metinleri do'' @ [287] @ u ''al sesli konu'' @ [351] @ u ''maya d'' @ [246] @
       u ''n'' @ [252, 351] @ u ''t'' @ [252] @ u ''rebiliyoruz. '' @ [10] @
       u ''        Bu teknoloji, haber makalelerini sesli olarak dinlemek i'' @ [231] @
       u ''in kullan'' @ [305] @ u ''labilir.'' @ [10] @ u ''        ''"

definition demo_turkish_tts_app :: "world \<Rightarrow> event list \<Rightarrow> ustr option \<times> event list" where
  "demo_turkish_tts_app w tr =
     (let filename = u ''turkish_demo.wav'';
          (audio_path, tr') = text_to_speech w turkish_text_app filename tr
      in (if truthy audio_path then audio_path else None, tr'))"

record app_entry =
  app_title :: ustr
  app_audio_file :: ustr
  app_original_url :: ustr
  app_date :: ustr

datatype app_result = DemoPath "ustr option" | Files "app_entry list"

fun columns_loop_app ::
  "world \<Rightarrow> nat \<Rightarrow> app_entry list \<Rightarrow> event list \<Rightarrow> article list \<Rightarrow> app_entry list \<times> event list" where
  \<comment> \<open>\<open>for i, column in enumerate(columns)\<close>; the \<open>else\<close> branch prints the error line\<close>
  "columns_loop_app w i processed_files tr [] = (processed_files, tr)"
| "columns_loop_app w i processed_files tr (column # columns) =
     (let safe_title = rstrip (filter (keep_char w) (title column));
          filename = now_ymd w @ u ''_'' @ str_of_nat (i + 1) @ u ''_'' @ take 30 safe_title
                       @ u ''.wav'';
          (audio_path, tr') = text_to_speech w (content column) filename tr
      in case audio_path of
           Some p \<Rightarrow>
             if p \<noteq> []
             then columns_loop_app w (i + 1)
                    (processed_files @
                       [\<lparr>app_title = title column, app_audio_file = p,
                         app_original_url = url column, app_date = date column\<rparr>])
                    tr' columns
             else columns_loop_app w (i + 1) processed_files
                    (tr' @ [ColumnFailed (title column)]) columns
         | None \<Rightarrow> columns_loop_app w (i + 1) processed_files
                     (tr' @ [ColumnFailed (title column)]) columns)"

definition process_daily_columns_app :: "world \<Rightarrow> (exn + app_result) \<times> event list" where
  \<comment> \<open>Here the metadata file is written outside any \<open>try\<close>.\<close>
  "process_daily_columns_app w =
     (let columns = get_daily_sabah_columns_app w;
          tr = [ListColumns]
      in if columns = []
         then (let (demo_result, tr') = demo_turkish_tts_app w tr
               in (Inr (DemoPath demo_result), tr'))
         else (let (processed_files, tr') = columns_loop_app w 0 [] tr columns
               in if metadata_write_ok w then (Inr (Files processed_files), tr')
                  else (Inl OSError, tr')))"

section \<open>scrape\_riktpunkt.py\<close>

text \<open>
  The regular expressions of this script decide none of the properties below, so the
  engine is taken as given: each use of \<open>re\<close> is a field of the environment.
\<close>

record rk_env =
  re_search_dated :: "ustr \<Rightarrow> (ustr \<times> ustr) option"
    \<comment> \<open>\<open>re.search(r'/(\d{4})/(\d{2})/', s)\<close>: the two groups of the match, if any\<close>
  re_sub_site_name :: "ustr \<Rightarrow> ustr"
    \<comment> \<open>\<open>re.sub\<close> of the pattern that ends in the name of the site, by the empty string\<close>
  re_search_class :: "ustr \<Rightarrow> bool"
    \<comment> \<open>the pattern \<open>content|article|post\<close> is found in the string\<close>
  re_sub_whitespace :: "ustr \<Rightarrow> ustr"
    \<comment> \<open>\<open>re.sub(r'\s+', ' ', s)\<close>\<close>
  re_sub_blank_lines :: "ustr \<Rightarrow> ustr"
    \<comment> \<open>\<open>re.sub(r'\n\s*\n', '\n\n', s)\<close>\<close>
  split_words :: "ustr \<Rightarrow> ustr list"
    \<comment> \<open>\<open>s.split()\<close>\<close>
  scraped_at :: ustr
    \<comment> \<open>\<open>datetime.now().isoformat()\<close>\<close>
  save_ok :: bool
    \<comment> \<open>\<open>save_results\<close> writes its files without raising\<close>

record rk_article =
  rk_title :: ustr
  rk_category :: ustr
  rk_date :: ustr
  rk_url :: ustr
  rk_content :: ustr
  rk_word_count :: nat
  rk_scraped_at :: ustr

fun tag_classes :: "node \<Rightarrow> ustr list" where
  "tag_classes (NavigableString s) = []"
| "tag_classes (Tag name classes attrs children) = classes"

definition find_div_class_re :: "rk_env \<Rightarrow> node \<Rightarrow> node option" where
  \<comment> \<open>\<open>soup.find("div", class_=re.compile(...))\<close>: a class of the tag matches, or the
      classes joined with a space do\<close>
  "find_div_class_re r soup =
     first (filter (\<lambda>x. has_name (u ''div'') x \<and> tag_classes x \<noteq> [] \<and>
                         (list_ex (re_search_class r) (tag_classes x)
                          \<or> re_search_class r (join [32] (tag_classes x))))
                   (descendants soup))"

fun decompose :: "ustr list \<Rightarrow> node \<Rightarrow> node" where
  \<comment> \<open>the tree after \<open>element.decompose()\<close> for every tag with one of the names\<close>
  "decompose names (NavigableString s) = NavigableString s"
| "decompose names (Tag name classes attrs children) =
     Tag name classes attrs
       (map (decompose names) (filter (\<lambda>c. \<not> (\<exists>n\<in>set names. has_name n c)) children))"

fun first_category :: "ustr \<Rightarrow> ustr list \<Rightarrow> ustr" where
  \<comment> \<open>the loop over \<open>category_patterns\<close>\<close>
  "first_category page_text [] = []"
| "first_category page_text (pattern # patterns) =
     (if contains pattern page_text then pattern else first_category page_text patterns)"

definition extract_article_content :: "rk_env \<Rightarrow> node \<Rightarrow> ustr \<Rightarrow> rk_article option" where
  \<comment> \<open>The body is inside \<open>try\<close>, and \<open>except Exception\<close> returns \<open>None\<close>.\<close>
  "extract_article_content r soup address =
     (let title =
            (case find_tag soup (u ''h1'') of
               Some title_tag \<Rightarrow> strip (get_text title_tag)
             | None \<Rightarrow>
                 (case find_tag soup (u ''title'') of
                    Some title_tag \<Rightarrow> re_sub_site_name r (strip (get_text title_tag))
                  | None \<Rightarrow> []));
          category = first_category (get_text soup)
                       [u ''UTRIKES'', u ''INRIKES'', u ''FACKLIGT'', u ''EKONOMI'', u ''KULTUR''];
          date = (case re_search_dated r address of
                    Some (year, month) \<Rightarrow> year @ u ''-'' @ month
                  | None \<Rightarrow> []);
          content =
            (case find_div_class_re r soup of
               Some content_div \<Rightarrow> strip (get_text content_div)
             | None \<Rightarrow>
                 (let soup' = decompose [u ''nav'', u ''header'', u ''footer'', u ''aside'',
                                          u ''script'', u ''style''] soup;
                      paragraphs = find_all soup' (u ''p'');
                      content_parts =
                        filter (\<lambda>text. text \<noteq> [] \<and> length text > 50)
                               (map (\<lambda>p. strip (get_text p)) paragraphs)
                  in join [10, 10] content_parts));
          content = strip (re_sub_whitespace r content);
          content = re_sub_blank_lines r content
      in if title = [] \<or> length content < 100 then None
         else Some \<lparr>rk_title = title, rk_category = category, rk_date = date,
                    rk_url = address, rk_content = content,
                    rk_word_count = length (split_words r content),
                    rk_scraped_at = scraped_at r\<rparr>)"

fun collect_urls :: "rk_env \<Rightarrow> ustr list \<Rightarrow> node list \<Rightarrow> ustr list" where
  \<comment> \<open>\<open>for link in article_links\<close>: the state is \<open>article_urls\<close>\<close>
  "collect_urls r article_urls [] = article_urls"
| "collect_urls r article_urls (link # links) =
     (case get_attr link (u ''href'') of
        None \<Rightarrow> collect_urls r article_urls links
      | Some href \<Rightarrow>
          if href \<noteq> [] \<and> re_search_dated r href \<noteq> None
          then (let href' = (if startswith href (u ''/'') then u ''https://riktpunkt.nu'' @ href
                             else href)
                in if href' \<notin> set article_urls
                   then collect_urls r (article_urls @ [href']) links
                   else collect_urls r article_urls links)
          else collect_urls r article_urls links)"

fun articles_loop :: "world \<Rightarrow> rk_env \<Rightarrow> rk_article list \<Rightarrow> ustr list \<Rightarrow> rk_article list" where
  \<comment> \<open>\<open>for i, url in enumerate(article_urls[:10])\<close>: both handlers of the inner \<open>try\<close>
      go on with the next address\<close>
  "articles_loop w r news_articles [] = news_articles"
| "articles_loop w r news_articles (address # addresses) =
     (case http_get w address of
        Inl e \<Rightarrow> articles_loop w r news_articles addresses
      | Inr article_response \<Rightarrow>
          if \<not> status_ok article_response then articles_loop w r news_articles addresses
          else (case parsed article_response of
                  Inl e \<Rightarrow> articles_loop w r news_articles addresses
                | Inr article_soup \<Rightarrow>
                    (case extract_article_content r article_soup address of
                       Some article_data \<Rightarrow>
                         articles_loop w r (news_articles @ [article_data]) addresses
                     | None \<Rightarrow> articles_loop w r news_articles addresses)))"

definition scrape_news :: "world \<Rightarrow> rk_env \<Rightarrow> exn + rk_article list" where
  \<comment> \<open>The outer \<open>try\<close> has one handler, for \<open>requests.RequestException\<close>; any other
      exception leaves the function.\<close>
  "scrape_news w r =
     (case http_get w (u ''https://riktpunkt.nu/'') of
        Inl e \<Rightarrow> if is_request_exception e then Inr [] else Inl e
      | Inr response \<Rightarrow>
          if \<not> status_ok response then Inr []
          else (case parsed response of
                  Inl e \<Rightarrow> if is_request_exception e then Inr [] else Inl e
                | Inr soup \<Rightarrow>
                    (let article_links = find_all_href soup (u ''a'');
                         article_urls = collect_urls r [] article_links;
                         news_articles = articles_loop w r [] (take 10 article_urls)
                     in if save_ok r then Inr news_articles else Inl OSError)))"

section \<open>\<open>ElevenLabsSwedishTTS.process_news_articles\<close> (elevenlabs\_tts.py)\<close>

record el_world =
  makedirs_ok :: bool
    \<comment> \<open>\<open>os.makedirs(output_folder, exist_ok=True)\<close> does not raise\<close>
  folder_exists :: bool
    \<comment> \<open>\<open>articles_path.exists()\<close>\<close>
  text_files :: "(ustr \<times> (exn + ustr)) list"
    \<comment> \<open>the \<open>*.txt\<close> files of the folder: the stem of each, and what reading it gives\<close>
  el_speech_ok :: "ustr \<Rightarrow> ustr \<Rightarrow> bool"
    \<comment> \<open>the request for this text succeeds and the audio is written to this path\<close>

definition el_text_to_speech :: "el_world \<Rightarrow> ustr \<Rightarrow> ustr \<Rightarrow> event list \<Rightarrow> bool \<times> event list" where
  \<comment> \<open>\<open>text_to_speech\<close>: \<open>True\<close> only after the file is written; every exception is
      caught and gives \<open>False\<close>\<close>
  "el_text_to_speech w text output_file tr =
     (output_file \<noteq> [] \<and> el_speech_ok w text output_file, tr @ [Speech text output_file])"

definition format_02d :: "nat \<Rightarrow> ustr" where
  \<comment> \<open>the format \<open>:02d\<close>\<close>
  "format_02d n = (if n < 10 then [48] @ str_of_nat n else str_of_nat n)"

record counters =
  successful :: nat
  failed :: nat

definition count :: "bool \<Rightarrow> counters \<Rightarrow> counters" where
  \<comment> \<open>\<open>if success: successful += 1 else: failed += 1\<close>\<close>
  "count success k =
     (if success then k\<lparr>successful := successful k + 1\<rparr> else k\<lparr>failed := failed k + 1\<rparr>)"

fun parts_loop ::
  "el_world \<Rightarrow> ustr \<Rightarrow> ustr \<Rightarrow> nat \<Rightarrow> counters \<Rightarrow> event list \<Rightarrow> ustr list \<Rightarrow> counters \<times> event list" where
  \<comment> \<open>\<open>for part_idx, part in enumerate(parts)\<close>\<close>
  "parts_loop w output_folder stem part_idx k tr [] = (k, tr)"
| "parts_loop w output_folder stem part_idx k tr (part # parts) =
     (let audio_filename = stem @ u ''_part'' @ format_02d (part_idx + 1) @ u ''.mp3'';
          audio_path = path_join output_folder audio_filename;
          (success, tr') = el_text_to_speech w part audio_path tr
      in parts_loop w output_folder stem (part_idx + 1) (count success k) tr' parts)"

fun files_loop ::
  "el_world \<Rightarrow> ustr \<Rightarrow> int \<Rightarrow> counters \<Rightarrow> event list \<Rightarrow> (ustr \<times> (exn + ustr)) list \<Rightarrow> counters \<times> event list" where
  \<comment> \<open>\<open>for i, text_file in enumerate(text_files, 1)\<close>; an exception while a file is
      read counts as one failure\<close>
  "files_loop w output_folder max_length k tr [] = (k, tr)"
| "files_loop w output_folder max_length k tr ((stem, file_content) # files) =
     (case file_content of
        Inl e \<Rightarrow> files_loop w output_folder max_length (count False k) tr files
      | Inr raw \<Rightarrow>
          (let content = strip raw
           in if content = []
              then files_loop w output_folder max_length (count False k) tr files
              else if int (length content) > max_length
              then (let parts = split_text content max_length;
                        (k', tr') = parts_loop w output_folder stem 0 k tr parts
                    in files_loop w output_folder max_length k' tr' files)
              else (let audio_filename = stem @ u ''.mp3'';
                        audio_path = path_join output_folder audio_filename;
                        (success, tr') = el_text_to_speech w content audio_path tr
                    in files_loop w output_folder max_length (count success k) tr' files)))"

definition process_news_articles ::
  "el_world \<Rightarrow> ustr \<Rightarrow> int \<Rightarrow> exn + (counters option \<times> event list)" where
  \<comment> \<open>The method returns nothing; what it prints at the end are the two counters.
      \<open>None\<close> is the early return when there is no folder or no file.  The output
      folder is made outside any \<open>try\<close>.\<close>
  "process_news_articles w output_folder max_length =
     (if \<not> makedirs_ok w then Inl OSError
      else if \<not> folder_exists w then Inr (None, [])
      else if text_files w = [] then Inr (None, [])
      else (let (k, tr) = files_loop w output_folder max_length
                            \<lparr>successful = 0, failed = 0\<rparr> [] (text_files w)
            in Inr (Some k, tr)))"

section \<open>Notions used to state the properties\<close>

subsection \<open>The lister\<close>

definition step_article :: "world \<Rightarrow> node \<Rightarrow> article option" where
  \<comment> \<open>the article a card contributes, if any\<close>
  "step_article w card_tag = (case card_step w card_tag of Inr r \<Rightarrow> r | Inl e \<Rightarrow> None)"

definition card_content :: "world \<Rightarrow> node \<Rightarrow> ustr option" where
  \<comment> \<open>what \<open>get_column_content\<close> returns for the page a card links to; \<open>None\<close> also when
      the card has no title, no link or no \<open>href\<close>\<close>
  "card_content w card_tag =
     (case (select_one card_tag selectors_title, select_one card_tag selectors_link) of
        (Some te, Some le) \<Rightarrow>
          (case get_attr le (u ''href'') of
             Some link \<Rightarrow> get_column_content_enhanced w (full_url_of link)
           | None \<Rightarrow> None)
      | _ \<Rightarrow> None)"

definition qualifies :: "world \<Rightarrow> node \<Rightarrow> bool" where
  \<comment> \<open>a card with a title and a link whose page gives a content that is accepted\<close>
  "qualifies w card_tag \<longleftrightarrow>
     (case card_content w card_tag of Some c \<Rightarrow> c \<noteq> [] \<and> c \<noteq> sentinel | None \<Rightarrow> False)"

definition card_raises :: "node \<Rightarrow> bool" where
  \<comment> \<open>a card with a title and a link, the link without \<open>href\<close>\<close>
  "card_raises card_tag \<longleftrightarrow>
     (case (select_one card_tag selectors_title, select_one card_tag selectors_link) of
        (Some te, Some le) \<Rightarrow> get_attr le (u ''href'') = None
      | _ \<Rightarrow> False)"

definition fetch_fails :: "world \<Rightarrow> ustr \<Rightarrow> bool" where
  \<comment> \<open>a network or parse error while a page is fetched: the request raises, the status
      is an error, or the parser raises\<close>
  "fetch_fails w address \<longleftrightarrow>
     (case http_get w address of
        Inl e \<Rightarrow> True
      | Inr response \<Rightarrow>
          \<not> status_ok response \<or> (case parsed response of Inl e \<Rightarrow> True | Inr soup \<Rightarrow> False))"

subsection \<open>The orchestrator\<close>

definition filename_of :: "world \<Rightarrow> nat \<Rightarrow> article \<Rightarrow> ustr" where
  \<comment> \<open>the file name of the \<open>i\<close>-th column\<close>
  "filename_of w i column = create_safe_filename w (title column) i (now_ymd w)"

definition entry_of :: "world \<Rightarrow> nat \<Rightarrow> article \<Rightarrow> entry option" where
  \<comment> \<open>the metadata entry of the \<open>i\<close>-th column, when its synthesis succeeds\<close>
  "entry_of w i column =
     (let p = path_join output_directory (filename_of w i column)
      in if speech_ok w (content column) p \<and> p \<noteq> []
         then Some \<lparr>entry_title = title column, entry_author = author column,
                     audio_file = p, original_url = url column, entry_date = date column,
                     file_size = (case getsize w p of Some n \<Rightarrow> n | None \<Rightarrow> 0)\<rparr>
         else None)"

definition column_events :: "world \<Rightarrow> nat \<Rightarrow> article \<Rightarrow> event list" where
  \<comment> \<open>what the loop does for the \<open>i\<close>-th column: the request, and the record of the
      failure when the synthesis fails\<close>
  "column_events w i column =
     Speech (content column) (filename_of w i column)
       # (if entry_of w i column = None then [ColumnFailed (title column)] else [])"

definition numbered :: "nat \<Rightarrow> 'a list \<Rightarrow> (nat \<times> 'a) list" where
  \<comment> \<open>\<open>enumerate(xs, i)\<close>\<close>
  "numbered i xs = zip [i ..< i + length xs] xs"

subsection \<open>ElevenLabs\<close>

definition part_jobs :: "ustr \<Rightarrow> ustr \<Rightarrow> nat \<Rightarrow> ustr list \<Rightarrow> (ustr \<times> ustr) list" where
  \<comment> \<open>the requests for the parts of one article: text and audio path\<close>
  "part_jobs output_folder stem part_idx parts =
     map (\<lambda>(j, part). (part, path_join output_folder
                                (stem @ u ''_part'' @ format_02d (j + 1) @ u ''.mp3'')))
         (numbered part_idx parts)"

definition file_jobs :: "ustr \<Rightarrow> int \<Rightarrow> ustr \<times> (exn + ustr) \<Rightarrow> (ustr \<times> ustr) list option" where
  \<comment> \<open>the requests for one file; \<open>None\<close> for a file that cannot be read or is empty\<close>
  "file_jobs output_folder max_length f =
     (case snd f of
        Inl e \<Rightarrow> None
      | Inr raw \<Rightarrow>
          (let content = strip raw
           in if content = [] then None
              else if int (length content) > max_length
              then Some (part_jobs output_folder (fst f) 0 (split_text content max_length))
              else Some [(content, path_join output_folder (fst f @ u ''.mp3''))]))"

definition job_ok :: "el_world \<Rightarrow> ustr \<times> ustr \<Rightarrow> bool" where
  "job_ok w j \<longleftrightarrow> snd j \<noteq> [] \<and> el_speech_ok w (fst j) (snd j)"

definition all_jobs :: "ustr \<Rightarrow> int \<Rightarrow> (ustr \<times> (exn + ustr)) list \<Rightarrow> (ustr \<times> ustr) list" where
  "all_jobs output_folder max_length files =
     concat (map (\<lambda>f. case file_jobs output_folder max_length f of Some js \<Rightarrow> js | None \<Rightarrow> [])
                 files)"

section \<open>Example pages and worlds\<close>

definition example_world ::
  "(ustr \<Rightarrow> exn + response) \<Rightarrow> (ustr \<Rightarrow> ustr \<Rightarrow> bool) \<Rightarrow> world" where
  "example_world net speech =
     \<lparr>http_get = net, today = u ''2024-01-02'', now_ymd = u ''20240102'',
      now_stamp = u ''20240102_090000'', speech_ok = speech, getsize = (\<lambda>p. Some 5),
      isalnum = (\<lambda>c. (48 \<le> c \<and> c \<le> 57) \<or> (65 \<le> c \<and> c \<le> 90) \<or> (97 \<le> c \<and> c \<le> 122)),
      metadata_write_ok = True\<rparr>"

definition ok_page :: "node \<Rightarrow> exn + response" where
  "ok_page soup = Inr \<lparr>status_ok = True, parsed = Inr soup\<rparr>"

definition document :: "node list \<Rightarrow> node" where
  "document children = Tag (u ''[document]'') [] [] children"

definition para :: "string \<Rightarrow> node" where
  "para s = Tag (u ''p'') [] [] [NavigableString (u s)]"

definition page_two_containers :: node where
  \<comment> \<open>an empty \<open>div.content\<close>, then an \<open>article\<close> with a paragraph\<close>
  "page_two_containers =
     document [Tag (u ''div'') [u ''content''] [] [],
               Tag (u ''article'') [] [] [para '' Hello '']]"

definition page_content_then_article :: node where
  \<comment> \<open>a \<open>div.content\<close> with three paragraphs, the second blank, then an \<open>article\<close>\<close>
  "page_content_then_article =
     document [Tag (u ''div'') [u ''content''] []
                 [para ''Hello. '', para ''  '', para '' World.''],
               Tag (u ''article'') [] [] [para ''Sidebar'']]"

definition page_no_container :: node where
  "page_no_container = document [Tag (u ''span'') [] [] [para ''Hello'']]"

definition page_article :: node where
  \<comment> \<open>an article page as the end-to-end scenario of the specification has it\<close>
  "page_article =
     document [Tag (u ''div'') [u ''article-content''] [] [para ''Hello.'', para ''World.'']]"

definition page_sentinel_text :: node where
  \<comment> \<open>a genuine article whose only paragraph is the phrase of the sentinel\<close>
  "page_sentinel_text =
     document [Tag (u ''div'') [u ''article-content''] []
                 [para ''Content could not be extracted'']]"

definition example_card :: "string \<Rightarrow> string \<Rightarrow> node" where
  \<comment> \<open>a card with a title and a link, without author\<close>
  "example_card t href =
     Tag (u ''div'') [u ''article-card''] []
       [Tag (u ''h3'') [] [] [NavigableString (u t)],
        Tag (u ''a'') [u ''card''] [(u ''href'', u href)] []]"

definition card_without_href :: node where
  "card_without_href =
     Tag (u ''div'') [u ''article-card''] []
       [Tag (u ''h3'') [] [] [NavigableString (u ''Broken'')],
        Tag (u ''a'') [u ''card''] [] []]"

definition six_cards :: "node list" where
  \<comment> \<open>six cards that link to the same article\<close>
  "six_cards =
     [example_card ''T1'' ''/columns/a'', example_card ''T2'' ''/columns/a'',
      example_card ''T3'' ''/columns/a'', example_card ''T4'' ''/columns/a'',
      example_card ''T5'' ''/columns/a'', example_card ''T6'' ''/columns/a'']"

definition example_net :: "node list \<Rightarrow> ustr \<Rightarrow> exn + response" where
  \<comment> \<open>a listing page with the given cards; the article \<open>/columns/a\<close>; the article
      \<open>/columns/s\<close> whose text is the phrase of the sentinel; a page without container at
      \<open>/columns/n\<close>; every other request fails\<close>
  "example_net cards address =
     (if address = u ''https://www.dailysabah.com/columns'' then ok_page (document cards)
      else if address = u ''https://www.dailysabah.com/columns/a'' then ok_page page_article
      else if address = u ''https://www.dailysabah.com/columns/s'' then ok_page page_sentinel_text
      else if address = u ''https://www.dailysabah.com/columns/n'' then ok_page page_no_container
      else Inl RequestException)"

definition three_cards :: "node list" where
  "three_cards =
     [example_card ''T1'' ''/columns/a'', example_card ''T2'' ''/columns/a'',
      example_card ''T3'' ''/columns/a'']"

definition example_el_world :: el_world where
  \<comment> \<open>three files: one to be split, one that cannot be read, one short; the request for
      the first part of the first file fails\<close>
  "example_el_world =
     \<lparr>makedirs_ok = True, folder_exists = True,
      text_files = [(u ''a'', Inr (u ''Hi there. Go! Now  '')), (u ''b'', Inl OSError),
                    (u ''c'', Inr (u ''ok''))],
      el_speech_ok = (\<lambda>t p. p \<noteq> u ''audio_news/a_part01.mp3'')\<rparr>"

subsection \<open>scrape\_riktpunkt.py\<close>

definition request_fails :: "world \<Rightarrow> ustr \<Rightarrow> bool" where
  \<comment> \<open>the request raises a \<open>requests.RequestException\<close>, or the status is an error,
      which \<open>raise_for_status()\<close> turns into one\<close>
  "request_fails w address \<longleftrightarrow>
     (case http_get w address of
        Inl e \<Rightarrow> is_request_exception e
      | Inr response \<Rightarrow> \<not> status_ok response)"

definition parser_raises :: "world \<Rightarrow> ustr \<Rightarrow> exn \<Rightarrow> bool" where
  \<comment> \<open>the page is fetched and the parser raises \<open>e\<close>\<close>
  "parser_raises w address e \<longleftrightarrow>
     (case http_get w address of
        Inl e' \<Rightarrow> False
      | Inr response \<Rightarrow> status_ok response \<and> parsed response = Inl e)"

definition example_rk_env :: rk_env where
  "example_rk_env =
     \<lparr>re_search_dated = (\<lambda>s. None), re_sub_site_name = (\<lambda>s. s),
      re_search_class = (\<lambda>s. False), re_sub_whitespace = (\<lambda>s. s),
      re_sub_blank_lines = (\<lambda>s. s), split_words = (\<lambda>s. [s]),
      scraped_at = u ''2024-01-02T09:00:00'', save_ok = True\<rparr>"

definition unparsable :: "ustr \<Rightarrow> exn + response" where
  \<comment> \<open>every page is served, and the parser raises on it\<close>
  "unparsable address = Inr \<lparr>status_ok = True, parsed = Inl ParserError\<rparr>"

definition example_link :: "string \<Rightarrow> string \<Rightarrow> node" where
  \<comment> \<open>a link outside any card, as the fallback path reads it\<close>
  "example_link t href = Tag (u ''a'') [] [(u ''href'', u href)] [NavigableString (u t)]"

section \<open>Proofs: the text chunker\<close>

lemma term_not_space: "is_term c \<Longrightarrow> \<not> is_space c"
  by (auto simp: is_term_def is_space_def)

lemma space_32: "is_space 32" and term_46: "is_term 46"
  by (simp_all add: is_space_def is_term_def)

lemma strip_Nil: "strip [] = []"
  by (simp add: strip_def)

lemma strip_decomp:
  "\<exists>a b. s = a @ strip s @ b \<and> (\<forall>c\<in>set a. is_space c) \<and> (\<forall>c\<in>set b. is_space c)"
proof -
  let ?a = "takeWhile is_space s"
  let ?m = "dropWhile is_space s"
  let ?b = "rev (takeWhile is_space (rev ?m))"
  have "rev ?m = takeWhile is_space (rev ?m) @ dropWhile is_space (rev ?m)" by simp
  then have "?m = rev (dropWhile is_space (rev ?m)) @ ?b"
    by (metis rev_append rev_rev_ident)
  then have "s = ?a @ strip s @ ?b"
    by (metis strip_def takeWhile_dropWhile_id)
  moreover have tw: "\<And>xs::nat list. \<forall>c\<in>set (takeWhile is_space xs). is_space c"
    by (metis set_takeWhileD)
  have "\<forall>c\<in>set ?a. is_space c" by (rule tw)
  moreover have "\<forall>c\<in>set ?b. is_space c" using tw [of "rev ?m"] by simp
  ultimately show ?thesis by blast
qed

lemma strip_clean_or_Nil: "strip s = [] \<or> clean (strip s)"
proof (cases "strip s = []")
  case False
  let ?m = "dropWhile is_space s"
  let ?r = "dropWhile is_space (rev ?m)"
  have r: "?r \<noteq> []" using False by (simp add: strip_def)
  then have h: "\<not> is_space (hd ?r)" by (metis hd_dropWhile)
  have "last (strip s) = hd ?r" using r by (simp add: strip_def last_rev)
  moreover have "hd (strip s) = hd ?m"
  proof -
    obtain b where ab: "?m = strip s @ b"
      by (metis strip_def rev_append rev_rev_ident takeWhile_dropWhile_id)
    then show ?thesis using False by (metis hd_append2)
  qed
  moreover have "\<not> is_space (hd ?m)" using r by (metis hd_dropWhile dropWhile.simps(1) rev.simps(1))
  ultimately show ?thesis using False h by (simp add: clean_def)
qed simp

lemma dropWhile_rev_last: "xs \<noteq> [] \<Longrightarrow> \<not> P (last xs) \<Longrightarrow> dropWhile P (rev xs) = rev xs"
  by (induction xs rule: rev_induct) auto

lemma strip_of_clean: "clean s \<Longrightarrow> strip s = s"
proof -
  assume c: "clean s"
  then obtain x xs where s: "s = x # xs" by (cases s) (auto simp: clean_def)
  have 1: "dropWhile is_space s = s" using c s by (simp add: clean_def)
  have "dropWhile is_space (rev s) = rev s"
    using c dropWhile_rev_last [of s is_space] by (simp add: clean_def)
  then show ?thesis using 1 by (simp add: strip_def)
qed

lemma strip_strip: "strip (strip s) = strip s"
  using strip_clean_or_Nil [of s] by (auto simp: strip_Nil strip_of_clean)


lemma join_snoc: "join s (g @ [x]) = (if g = [] then x else join s g @ s @ x)"
  by (induction s g rule: join.induct) auto

lemma join_eq_Nil: "\<forall>x\<in>set g. x \<noteq> [] \<Longrightarrow> join s g = [] \<longleftrightarrow> g = []"
  by (induction s g rule: join.induct) auto

lemma clean_append: "clean a \<Longrightarrow> clean b \<Longrightarrow> clean (a @ m @ b)"
  by (auto simp: clean_def)

lemma clean_join: "g \<noteq> [] \<Longrightarrow> \<forall>x\<in>set g. clean x \<Longrightarrow> clean (join s g)"
proof (induction s g rule: join.induct)
  case (3 s x y ys)
  then have "clean (join s (y # ys))" by simp
  with 3 show ?case by (simp add: clean_append)
qed simp_all

lemma split_loop_sentences:
  "split_loop m cs cur ps = split_loop m cs cur (filter (\<lambda>s. s \<noteq> []) (map strip ps))"
  by (induction ps arbitrary: cs cur) (simp_all add: Let_def strip_strip)

lemma split_loop_append:
  "split_loop m cs cur (xs @ ys) =
     (case split_loop m cs cur xs of (cs', cur') \<Rightarrow> split_loop m cs' cur' ys)"
  by (induction xs arbitrary: cs cur) (simp_all add: Let_def)

lemma stable_Nil: "stable m []"
  by (simp add: stable_def)

lemma stable_single: "clean s \<Longrightarrow> stable m [s]"
  by (simp add: stable_def strip_of_clean clean_def)

lemma stable_snoc:
  assumes "stable m g" "g \<noteq> []" "\<forall>x\<in>set g. clean x" "clean s"
    and "\<not> int (length (join sep g)) + int (length s) + 2 > m"
  shows "stable m (g @ [s])"
proof -
  have ne: "join sep g \<noteq> []" using assms(2,3) clean_join [of g sep] by (auto simp: clean_def)
  have "split_loop m [] [] (g @ [s]) = split_loop m [] (join sep g) [s]"
    using assms(1) by (simp add: split_loop_append stable_def)
  also have "\<dots> = ([], join sep g @ sep @ s)"
    using assms(4,5) ne by (simp add: strip_of_clean clean_def)
  finally show ?thesis using assms(2) by (simp add: stable_def join_snoc)
qed

lemma split_loop_groups:
  assumes "\<forall>s\<in>set ss. clean s" "\<forall>s\<in>set g0. clean s" "g0 \<noteq> [] \<longrightarrow> good_group m g0"
  shows "\<exists>groups g'. split_loop m cs (join sep g0) ss = (cs @ map (join sep) groups, join sep g')
           \<and> g0 @ ss = concat groups @ g'
           \<and> (\<forall>g\<in>set groups. good_group m g)
           \<and> (g' \<noteq> [] \<longrightarrow> good_group m g')
           \<and> (g' = [] \<longrightarrow> g0 = [] \<and> ss = [])"
  using assms
proof (induction ss arbitrary: cs g0)
  case Nil
  show ?case
    by (rule exI [of _ "[]"], rule exI [of _ g0]) (use Nil in simp)
next
  case (Cons s ss)
  have s: "clean s" "strip s = s" "s \<noteq> []"
    using Cons.prems(1) by (auto simp: strip_of_clean clean_def)
  have cur: "join sep g0 = [] \<longleftrightarrow> g0 = []"
    using Cons.prems(2) by (intro join_eq_Nil) (auto simp: clean_def)
  show ?case
  proof (cases "int (length (join sep g0)) + int (length s) + 2 > m \<and> g0 \<noteq> []")
    case True
    then have g0: "good_group m g0" using Cons.prems(3) by simp
    have cl: "clean (join sep g0)" using True Cons.prems(2) by (simp add: clean_join)
    have step: "split_loop m cs (join sep g0) (s # ss)
                  = split_loop m (cs @ [join sep g0]) (join sep [s]) ss"
      using True s cur cl by (simp add: strip_of_clean)
    have "good_group m [s]" using s by (simp add: good_group_def stable_single)
    with Cons.IH [of "[s]" "cs @ [join sep g0]"] Cons.prems(1) s
    obtain groups g' where r:
      "split_loop m (cs @ [join sep g0]) (join sep [s]) ss
         = ((cs @ [join sep g0]) @ map (join sep) groups, join sep g')"
      "[s] @ ss = concat groups @ g'" "\<forall>g\<in>set groups. good_group m g"
      "g' \<noteq> [] \<longrightarrow> good_group m g'" "g' = [] \<longrightarrow> [s] = [] \<and> ss = []"
      by auto
    show ?thesis
      by (rule exI [of _ "g0 # groups"], rule exI [of _ g'])
         (use r step g0 in auto)
  next
    case False
    let ?g = "g0 @ [s]"
    have step: "split_loop m cs (join sep g0) (s # ss) = split_loop m cs (join sep ?g) ss"
      using False s cur by (auto simp: join_snoc)
    have gg: "good_group m ?g"
    proof (cases "g0 = []")
      case True
      then show ?thesis using s by (simp add: good_group_def stable_single)
    next
      case ne: False
      then have g0: "good_group m g0" using Cons.prems(3) by simp
      have fit: "\<not> int (length (join sep g0)) + int (length s) + 2 > m" using False ne by simp
      have "stable m ?g"
        using g0 ne Cons.prems(2) s(1) fit by (intro stable_snoc) (auto simp: good_group_def)
      moreover have "int (length (join sep ?g)) \<le> m"
        using fit ne by (simp add: join_snoc)
      ultimately show ?thesis by (simp add: good_group_def)
    qed
    have "\<forall>x\<in>set ?g. clean x" using Cons.prems(2) s by auto
    with Cons.IH [of ?g cs] Cons.prems(1) gg
    obtain groups g' where r:
      "split_loop m cs (join sep ?g) ss = (cs @ map (join sep) groups, join sep g')"
      "?g @ ss = concat groups @ g'" "\<forall>g\<in>set groups. good_group m g"
      "g' \<noteq> [] \<longrightarrow> good_group m g'" "g' = [] \<longrightarrow> ?g = [] \<and> ss = []"
      by auto
    show ?thesis
      by (rule exI [of _ groups], rule exI [of _ g'])
         (use r step in auto)
  qed
qed

lemma split_text_groups:
  "\<exists>groups. split_text t m = map (join sep) groups \<and> concat groups = sentences_of t
      \<and> (\<forall>g\<in>set groups. good_group m g)"
proof -
  let ?ss = "sentences_of t"
  have cl: "\<forall>s\<in>set ?ss. clean s"
    using strip_clean_or_Nil by (auto simp: sentences_of_def)
  have "\<exists>groups g'. split_loop m [] (join sep []) ?ss = ([] @ map (join sep) groups, join sep g')
           \<and> [] @ ?ss = concat groups @ g'
           \<and> (\<forall>g\<in>set groups. good_group m g)
           \<and> (g' \<noteq> [] \<longrightarrow> good_group m g')
           \<and> (g' = [] \<longrightarrow> [] = ([]::ustr list) \<and> ?ss = [])"
    by (rule split_loop_groups) (use cl in simp_all)
  then obtain groups g' where r0:
    "split_loop m [] (join sep []) ?ss = ([] @ map (join sep) groups, join sep g')"
    "[] @ ?ss = concat groups @ g'" and r34: "\<forall>g\<in>set groups. good_group m g"
    "g' \<noteq> [] \<longrightarrow> good_group m g'"
    by blast
  have r: "split_loop m [] [] ?ss = (map (join sep) groups, join sep g')"
    "?ss = concat groups @ g'" "\<forall>g\<in>set groups. good_group m g"
    "g' \<noteq> [] \<longrightarrow> good_group m g'"
    using r0 r34 by simp_all
  have loop: "split_loop m [] [] (re_split t) = (map (join sep) groups, join sep g')"
    using r(1) split_loop_sentences [of m "[]" "[]" "re_split t"] by (simp add: sentences_of_def)
  have g'cl: "\<forall>s\<in>set g'. clean s" using cl r(2) by auto
  show ?thesis
  proof (cases "g' = []")
    case True
    then have "split_text t m = map (join sep) groups"
      using loop by (simp add: split_text_def strip_Nil)
    then show ?thesis using r True by auto
  next
    case False
    then have "clean (join sep g')" using g'cl by (simp add: clean_join)
    then have "strip (join sep g') = join sep g'" "join sep g' \<noteq> []"
      by (auto simp: strip_of_clean clean_def)
    then have "split_text t m = map (join sep) (groups @ [g'])"
      using loop by (simp add: split_text_def)
    then show ?thesis using r False by (intro exI [of _ "groups @ [g']"]) auto
  qed
qed

lemma sentences_clean: "s \<in> set (sentences_of t) \<Longrightarrow> clean s"
  using strip_clean_or_Nil by (auto simp: sentences_of_def)

lemma match_at_Nil: "match_at [] = None"
  by (simp add: match_at_def)

lemma match_at_nonterm: "\<not> is_term c \<Longrightarrow> match_at (c # cs) = None"
  by (simp add: match_at_def)

lemma match_at_single: "match_at [c] = None"
  by (simp add: match_at_def)

lemma match_at_term_term:
  "is_term c \<Longrightarrow> is_term d \<Longrightarrow> match_at (c # d # ds) = map_option Suc (match_at (d # ds))"
  by (simp add: match_at_def Let_def)

lemma match_at_term_other:
  "is_term c \<Longrightarrow> \<not> is_term d \<Longrightarrow> \<not> is_space d \<Longrightarrow> match_at (c # d # ds) = None"
  by (simp add: match_at_def Let_def)

lemma match_at_Some_term: "match_at s = Some n \<Longrightarrow> s \<noteq> [] \<and> is_term (hd s)"
  by (cases s) (auto simp: match_at_def Let_def split: if_splits)

lemma match_at_Some_ge2: "match_at s = Some n \<Longrightarrow> 2 \<le> n"
  by (cases "takeWhile is_term s"; cases "takeWhile is_space (dropWhile is_term s)")
     (auto simp: match_at_def Let_def split: if_splits)

lemma no_boundary_match: "no_boundary s \<Longrightarrow> match_at s = None"
proof (induction s rule: no_boundary.induct)
  case (3 c d cs)
  show ?case
  proof (cases "is_term c")
    case True
    then have nsp: "\<not> is_space d" using 3 by simp
    show ?thesis
    proof (cases "is_term d")
      case td: True
      then show ?thesis using True 3 by (simp add: match_at_term_term)
    next
      case False
      then show ?thesis using True nsp by (simp add: match_at_term_other)
    qed
  next
    case False
    then show ?thesis by (simp add: match_at_nonterm)
  qed
next
  case 1
  then show ?case by (simp add: match_at_Nil)
next
  case (2 v)
  then show ?case by (simp add: match_at_single)
qed

lemma no_boundary_tl: "no_boundary (c # cs) \<Longrightarrow> no_boundary cs"
  by (cases cs) auto

lemma re_split_no_boundary: "no_boundary s \<Longrightarrow> re_split s = [s]"
proof (induction s)
  case (Cons c cs)
  then have "re_split cs = [cs]" by (simp add: no_boundary_tl)
  moreover have "match_at (c # cs) = None" using Cons.prems by (rule no_boundary_match)
  ultimately show ?case by simp
qed simp

lemma inner_piece_match:
  "inner_piece s \<Longrightarrow> s \<noteq> [] \<Longrightarrow> match_at (s @ r) = None"
proof (induction s rule: no_boundary.induct)
  case (3 c d cs)
  have ip: "inner_piece (d # cs)" using 3(2) by (auto simp: inner_piece_def)
  show ?case
  proof (cases "is_term c")
    case True
    then have nsp: "\<not> is_space d" using 3(2) by (simp add: inner_piece_def)
    show ?thesis
    proof (cases "is_term d")
      case td: True
      have "match_at ((d # cs) @ r) = None" using ip 3(1) by simp
      then show ?thesis using True td by (simp add: match_at_term_term)
    next
      case False
      then show ?thesis using True nsp by (simp add: match_at_term_other)
    qed
  next
    case False
    then show ?thesis by (simp add: match_at_nonterm)
  qed
next
  case 1
  then show ?case by simp
next
  case (2 v)
  then show ?case by (simp add: inner_piece_def match_at_nonterm)
qed

lemma match_at_sep: "t = [] \<or> \<not> is_space (hd t) \<Longrightarrow> match_at (sep @ t) = Some 2"
  by (cases t) (auto simp: match_at_def Let_def is_term_def is_space_def)

lemma re_split_inner_sep:
  assumes "inner_piece s" "t = [] \<or> \<not> is_space (hd t)"
  shows "re_split (s @ sep @ t) = s # re_split t"
  using assms(1)
proof (induction s)
  case Nil
  have "match_at (46 # 32 # t) = Some 2" using match_at_sep [OF assms(2)] by simp
  then show ?case by simp
next
  case (Cons c cs)
  have "inner_piece cs" using Cons.prems by (cases cs) (auto simp: inner_piece_def)
  then have "re_split (cs @ sep @ t) = cs # re_split t" by (rule Cons.IH)
  moreover have "match_at ((c # cs) @ sep @ t) = None"
    using Cons.prems by (intro inner_piece_match) simp_all
  ultimately show ?case by simp
qed

lemma re_split_join:
  "pieces_ok g \<Longrightarrow> \<forall>s\<in>set g. clean s \<Longrightarrow> g \<noteq> [] \<Longrightarrow> re_split (join sep g) = g"
proof (induction g rule: pieces_ok.induct)
  case (2 s)
  then show ?case by (simp add: re_split_no_boundary)
next
  case (3 s t ts)
  have "clean (join sep (t # ts))" using 3(3) by (intro clean_join) simp_all
  then have "\<not> is_space (hd (join sep (t # ts)))" by (simp add: clean_def)
  then have "re_split (s @ sep @ join sep (t # ts)) = s # re_split (join sep (t # ts))"
    using 3(2) by (intro re_split_inner_sep) simp_all
  then show ?case using 3 by simp
qed simp

lemma re_split_not_Nil: "re_split t \<noteq> []"
  by (induction t rule: re_split.induct) (auto split: option.splits list.splits)

lemma re_split_first:
  assumes "re_split cs = p # ps"
  shows "(p = [] \<and> ps \<noteq> [] \<longrightarrow> match_at cs \<noteq> None) \<and> (p \<noteq> [] \<longrightarrow> cs \<noteq> [] \<and> hd p = hd cs)"
  using assms by (cases cs) (auto split: option.splits list.splits)

lemma no_boundary_Cons:
  "no_boundary (c # p) \<longleftrightarrow> (p = [] \<or> \<not> (is_term c \<and> is_space (hd p))) \<and> no_boundary p"
  by (cases p) auto

lemma inner_imp_no_boundary: "inner_piece s \<Longrightarrow> no_boundary s"
  by (simp add: inner_piece_def)

lemma match_term_space_Some: "is_term c \<Longrightarrow> cs \<noteq> [] \<Longrightarrow> is_space (hd cs) \<Longrightarrow> match_at (c # cs) \<noteq> None"
  by (cases cs) (auto simp: match_at_def Let_def term_not_space)

lemma match_term_match_Some: "is_term c \<Longrightarrow> match_at cs \<noteq> None \<Longrightarrow> match_at (c # cs) \<noteq> None"
  by (cases cs) (auto simp: match_at_def Let_def split: if_splits)

lemma pieces_ok_re_split: "pieces_ok (re_split t)"
proof (induction t rule: re_split.induct)
  case 1
  show ?case by simp
next
  case (2 c cs)
  show ?case
  proof (cases "match_at (c # cs)")
    case (Some n)
    then have "re_split (c # cs) = [] # re_split (drop (n - 1) cs)" by simp
    moreover have "pieces_ok (re_split (drop (n - 1) cs))" using 2 Some by simp
    ultimately show ?thesis
      by (cases "re_split (drop (n - 1) cs)") (simp_all add: inner_piece_def)
  next
    case None
    obtain p ps where pp: "re_split cs = p # ps"
      using re_split_not_Nil [of cs] by (cases "re_split cs") auto
    have ok: "pieces_ok (p # ps)" using 2 None pp by simp
    have res: "re_split (c # cs) = (c # p) # ps" using None pp by simp
    have fst: "(p = [] \<and> ps \<noteq> [] \<longrightarrow> match_at cs \<noteq> None)" "(p \<noteq> [] \<longrightarrow> cs \<noteq> [] \<and> hd p = hd cs)"
      using re_split_first [OF pp] by auto
    have nb_p: "no_boundary p" using ok by (cases ps) (auto simp: inner_piece_def)
    have "p = [] \<or> \<not> (is_term c \<and> is_space (hd p))"
      using fst(2) None match_term_space_Some [of c cs] by auto
    then have nb: "no_boundary (c # p)" using nb_p by (simp add: no_boundary_Cons)
    show ?thesis
    proof (cases ps)
      case Nil
      then show ?thesis using res nb by simp
    next
      case (Cons q qs)
      have "\<not> is_term (last (c # p))"
      proof (cases "p = []")
        case True
        then have "match_at cs \<noteq> None" using fst(1) Cons by simp
        then show ?thesis using True None match_term_match_Some [of c cs] by auto
      next
        case False
        then show ?thesis using ok Cons by (simp add: inner_piece_def)
      qed
      then have "inner_piece (c # p)" using nb by (simp add: inner_piece_def)
      then show ?thesis using res ok Cons by simp
    qed
  qed
qed

lemma no_boundary_append:
  "no_boundary (xs @ ys) \<longleftrightarrow>
     no_boundary xs \<and> no_boundary ys \<and>
     (xs \<noteq> [] \<and> ys \<noteq> [] \<longrightarrow> \<not> (is_term (last xs) \<and> is_space (hd ys)))"
proof (induction xs)
  case (Cons x xs)
  show ?case
  proof (cases xs)
    case Nil
    then show ?thesis by (cases ys) auto
  next
    case (Cons z zs)
    then show ?thesis using Cons.IH by auto
  qed
qed simp

lemma no_boundary_strip: "no_boundary s \<Longrightarrow> no_boundary (strip s)"
proof -
  assume nb: "no_boundary s"
  obtain a b where "s = a @ strip s @ b" using strip_decomp by blast
  then have "no_boundary (a @ strip s @ b)" using nb by simp
  then show ?thesis by (simp add: no_boundary_append)
qed

lemma inner_piece_strip: "inner_piece s \<Longrightarrow> inner_piece (strip s)"
proof -
  assume ip: "inner_piece s"
  obtain a b where d: "s = a @ strip s @ b" "\<forall>c\<in>set b. is_space c"
    using strip_decomp by blast
  have nb: "no_boundary (a @ strip s @ b)" using ip d(1) by (simp add: inner_piece_def)
  then have nbs: "no_boundary (strip s @ b)" "no_boundary (strip s)"
    by (simp_all add: no_boundary_append)
  have "strip s = [] \<or> \<not> is_term (last (strip s))"
  proof (cases "strip s = []")
    case False
    show ?thesis
    proof (cases "b = []")
      case True
      then have "last s = last (strip s)" using d(1) False by (metis append_Nil2 last_appendR)
      moreover have "s \<noteq> []" using False by (auto simp: strip_Nil)
      ultimately show ?thesis using ip by (simp add: inner_piece_def)
    next
      case bne: False
      then have "is_space (hd b)" using d(2) by (cases b) auto
      then show ?thesis using nbs(1) False bne by (auto simp: no_boundary_append)
    qed
  qed simp
  then show ?thesis using nbs(2) by (simp add: inner_piece_def)
qed

lemma pieces_ok_Cons: "pieces_ok (s # xs) \<Longrightarrow> no_boundary s \<and> pieces_ok xs"
  by (cases xs) (auto simp: inner_piece_def)

lemma pieces_ok_ConsI: "inner_piece s \<Longrightarrow> pieces_ok xs \<Longrightarrow> pieces_ok (s # xs)"
  by (cases xs) (auto simp: inner_piece_def)

lemma pieces_ok_sentences:
  "pieces_ok ps \<Longrightarrow> pieces_ok (filter (\<lambda>s. s \<noteq> []) (map strip ps))"
proof (induction ps rule: pieces_ok.induct)
  case (2 s)
  then show ?case by (simp add: no_boundary_strip)
next
  case (3 s t ts)
  then have "inner_piece (strip s)" "pieces_ok (filter (\<lambda>s. s \<noteq> []) (map strip (t # ts)))"
    by (simp_all add: inner_piece_strip)
  then show ?case using pieces_ok_ConsI by auto
qed simp

lemma pieces_ok_append: "pieces_ok (xs @ ys) \<Longrightarrow> pieces_ok xs \<and> pieces_ok ys"
proof (induction xs)
  case (Cons x xs)
  show ?case
  proof (cases xs)
    case Nil
    then show ?thesis using Cons.prems pieces_ok_Cons [of x ys] by simp
  next
    case c: (Cons z zs)
    then have "inner_piece x" "pieces_ok (xs @ ys)" using Cons.prems by simp_all
    then show ?thesis using Cons.IH pieces_ok_ConsI by auto
  qed
qed simp

lemma pieces_ok_group:
  assumes "pieces_ok (concat groups)" "g \<in> set groups"
  shows "pieces_ok g"
proof -
  obtain as bs where "groups = as @ g # bs" using assms(2) by (meson split_list)
  then have "concat groups = concat as @ g @ concat bs" by simp
  then show ?thesis using assms(1) pieces_ok_append by metis
qed

section \<open>Proofs: the content extractor\<close>

lemma content_loop_no_match:
  "\<forall>s\<in>set selectors. select_one soup s = None \<Longrightarrow> content_loop soup selectors = []"
  by (induction selectors) simp_all

lemma content_loop_first_match:
  "\<forall>s\<in>set pre. select_one soup s = None \<Longrightarrow> select_one soup sel = Some content_div \<Longrightarrow>
     content_loop soup (pre @ sel # post) = paragraphs_text content_div"
  by (induction pre) simp_all

lemma paragraphs_text_alt:
  "paragraphs_text content_div =
     join [10] (filter (\<lambda>t. t \<noteq> []) (map (\<lambda>p. strip (get_text p)) (find_all content_div (u ''p''))))"
  by (simp add: paragraphs_text_def filter_map comp_def)

lemma paragraphs_text_not_Nil:
  assumes "\<exists>p\<in>set (find_all content_div (u ''p'')). strip (get_text p) \<noteq> []"
  shows "paragraphs_text content_div \<noteq> []"
proof -
  let ?ts = "filter (\<lambda>t. t \<noteq> []) (map (\<lambda>p. strip (get_text p)) (find_all content_div (u ''p'')))"
  have "?ts \<noteq> []" using assms by (auto simp: filter_empty_conv)
  moreover have "\<forall>t\<in>set ?ts. t \<noteq> []" by simp
  ultimately have "join [10] ?ts \<noteq> []" using join_eq_Nil [of ?ts "[10]"] by blast
  then show ?thesis unfolding paragraphs_text_alt .
qed

lemma get_column_content_fetched:
  assumes "http_get w address = Inr response" "status_ok response" "parsed response = Inr soup"
  shows "get_column_content_app w address = Some (column_content soup content_selectors)"
    and "get_column_content_enhanced w address = Some (column_content soup content_selectors)"
  using assms by (simp_all add: get_column_content_app_def get_column_content_enhanced_def)

lemmas html_eval = select_one_def select_def first_def css_match_def find_all_def
  find_all_class_def find_all_href_def find_tag_def find_tag_class_def
  paragraphs_text_def strip_def is_space_def column_content_def content_selectors_def
  sentinel_def document_def para_def ok_page_def example_world_def
  selectors_title_def selectors_author_def selectors_link_def selectors_article_cards_def
  startswith_def endswith_def full_url_of_def NEWS_SOURCE_url_def max_columns_per_day_def

section \<open>Proofs: the article lister\<close>

lemma card_step_missing:
  "select_one c selectors_title = None \<or> select_one c selectors_link = None \<Longrightarrow>
     card_step w c = Inr None"
  by (auto simp: card_step_def Let_def split: option.splits)

lemma card_step_no_href:
  "select_one c selectors_title = Some te \<Longrightarrow> select_one c selectors_link = Some le \<Longrightarrow>
     get_attr le (u ''href'') = None \<Longrightarrow> card_step w c = Inl AttributeError"
  by (simp add: card_step_def Let_def)

lemma card_step_href:
  "select_one c selectors_title = Some te \<Longrightarrow> select_one c selectors_link = Some le \<Longrightarrow>
     get_attr le (u ''href'') = Some l \<Longrightarrow>
     card_step w c =
       (case get_column_content_enhanced w (full_url_of l) of
          Some b \<Rightarrow>
            if b \<noteq> [] \<and> b \<noteq> sentinel
            then Inr (Some \<lparr>title = strip (get_text te),
                            author = (case select_one c selectors_author of
                                        Some ae \<Rightarrow> strip (get_text ae)
                                      | None \<Rightarrow> u ''Unknown''),
                            url = full_url_of l, content = b, date = today w\<rparr>)
            else Inr None
        | None \<Rightarrow> Inr None)"
  by (simp add: card_step_def Let_def)

lemma card_step_cases:
  "(card_raises c \<and> card_step w c = Inl AttributeError) \<or>
   (\<not> card_raises c \<and> card_step w c = Inr (step_article w c))"
proof (cases "select_one c selectors_title")
  case None
  then show ?thesis using card_step_missing [of c w] by (simp add: card_raises_def step_article_def)
next
  case (Some te)
  note t = this
  show ?thesis
  proof (cases "select_one c selectors_link")
    case None
    then show ?thesis using t card_step_missing [of c w]
      by (simp add: card_raises_def step_article_def)
  next
    case (Some le)
    show ?thesis
    proof (cases "get_attr le (u ''href'')")
      case None
      then show ?thesis using t Some card_step_no_href [of c te le w]
        by (simp add: card_raises_def)
    next
      case (Some l)
      have "\<exists>r. card_step w c = Inr r"
        using card_step_href [OF t \<open>select_one c selectors_link = Some le\<close> Some, of w]
        by (auto split: option.splits)
      then show ?thesis using t \<open>select_one c selectors_link = Some le\<close> Some
        by (auto simp: card_raises_def step_article_def)
    qed
  qed
qed

lemma step_article_qualifies: "step_article w c \<noteq> None \<longleftrightarrow> qualifies w c"
proof (cases "select_one c selectors_title")
  case None
  then show ?thesis using card_step_missing [of c w]
    by (simp add: step_article_def qualifies_def card_content_def)
next
  case (Some te)
  note t = this
  show ?thesis
  proof (cases "select_one c selectors_link")
    case None
    then show ?thesis using t card_step_missing [of c w]
      by (simp add: step_article_def qualifies_def card_content_def)
  next
    case (Some le)
    note l = this
    show ?thesis
    proof (cases "get_attr le (u ''href'')")
      case None
      then show ?thesis using t l card_step_no_href [of c te le w]
        by (simp add: step_article_def qualifies_def card_content_def)
    next
      case (Some h)
      show ?thesis using t l Some card_step_href [OF t l Some, of w]
        by (auto simp: step_article_def qualifies_def card_content_def split: option.splits)
    qed
  qed
qed

lemma step_article_content:
  "step_article w c = Some a \<Longrightarrow> card_content w c = Some (content a) \<and> content a \<noteq> [] \<and> content a \<noteq> sentinel"
proof -
  assume a: "step_article w c = Some a"
  then have cs: "card_step w c = Inr (Some a)"
    by (auto simp: step_article_def split: sum.splits)
  then obtain te le where tl: "select_one c selectors_title = Some te" "select_one c selectors_link = Some le"
    using card_step_missing [of c w] by (cases "select_one c selectors_title"; cases "select_one c selectors_link") auto
  then obtain h where h: "get_attr le (u ''href'') = Some h"
    using cs card_step_no_href [OF tl, of w] by (cases "get_attr le (u ''href'')") auto
  show ?thesis
    using cs card_step_href [OF tl h, of w] tl h
    by (auto simp: card_content_def split: option.splits if_splits)
qed

lemma cards_loop_Inr:
  "length acc < max_columns_per_day \<Longrightarrow> cards_loop w acc cards = Inr R \<Longrightarrow>
     R = take max_columns_per_day (acc @ List.map_filter (step_article w) cards)"
proof (induction cards arbitrary: acc)
  case Nil
  then show ?case by simp
next
  case (Cons c cards)
  from card_step_cases [of c w] Cons.prems(2)
  have cs: "card_step w c = Inr (step_article w c)" by auto
  show ?case
  proof (cases "step_article w c")
    case None
    then show ?thesis using Cons cs by simp
  next
    case (Some a)
    show ?thesis
    proof (cases "length (acc @ [a]) \<ge> max_columns_per_day")
      case True
      then have "R = acc @ [a]" using Cons.prems(2) cs Some by (simp add: Let_def)
      moreover have "max_columns_per_day - length acc = Suc 0" using True Cons.prems(1) by simp
      ultimately show ?thesis using Some by simp
    next
      case False
      then have "cards_loop w (acc @ [a]) cards = Inr R"
        using Cons.prems(2) cs Some by (simp add: Let_def)
      with False Cons.IH [of "acc @ [a]"] show ?thesis
        using Some by simp
    qed
  qed
qed

lemma cards_loop_no_raise:
  "\<forall>c\<in>set cards. \<not> card_raises c \<Longrightarrow> \<exists>R. cards_loop w acc cards = Inr R"
proof (induction cards arbitrary: acc)
  case (Cons c cards)
  then have cs: "card_step w c = Inr (step_article w c)" using card_step_cases [of c w] by auto
  show ?case using Cons cs by (cases "step_article w c") (auto simp: Let_def)
qed simp

lemma cards_loop_raise_first:
  "card_raises c \<Longrightarrow> cards_loop w acc (c # cards) = Inl AttributeError"
  using card_step_cases [of c w] by auto

lemma lister_fetched:
  assumes "http_get w NEWS_SOURCE_url = Inr response" "status_ok response"
    "parsed response = Inr soup" "select soup selectors_article_cards = cards" "cards \<noteq> []"
  shows "get_daily_sabah_columns_enhanced w =
           (case cards_loop w [] cards of Inl e \<Rightarrow> [] | Inr columns_data \<Rightarrow> columns_data)"
  using assms by (simp add: get_daily_sabah_columns_enhanced_def Let_def)

lemma map_filter_length:
  "length (List.map_filter f xs) = length (filter (\<lambda>x. f x \<noteq> None) xs)"
  by (simp add: List.map_filter_def)



lemma fetch_fails_content: "fetch_fails w a \<Longrightarrow> get_column_content_enhanced w a = None"
  by (auto simp: fetch_fails_def get_column_content_enhanced_def split: sum.splits)

lemma fetch_fails_listing: "fetch_fails w NEWS_SOURCE_url \<Longrightarrow> get_daily_sabah_columns_enhanced w = []"
  by (auto simp: fetch_fails_def get_daily_sabah_columns_enhanced_def split: sum.splits)

lemma card_step_fetch_fails:
  assumes "select_one c selectors_title = Some te" "select_one c selectors_link = Some le"
    "get_attr le (u ''href'') = Some l" "fetch_fails w (full_url_of l)"
  shows "card_step w c = Inr None"
  using card_step_href [OF assms(1-3), of w] fetch_fails_content [OF assms(4)] by simp

lemma cards_loop_skip:
  "card_step w c = Inr None \<Longrightarrow> cards_loop w acc (xs @ c # ys) = cards_loop w acc (xs @ ys)"
proof (induction xs arbitrary: acc)
  case (Cons x xs)
  then show ?case by (auto simp: Let_def split: sum.splits option.splits)
qed simp

lemma links_loop_skip:
  "link_step w k = None \<Longrightarrow> links_loop w acc (xs @ k # ys) = links_loop w acc (xs @ ys)"
proof (induction xs arbitrary: acc)
  case (Cons x xs)
  then show ?case by (auto simp: Let_def split: option.splits)
qed simp

lemma link_step_href:
  assumes "get_attr k (u ''href'') = Some h" "h \<noteq> []" "contains (u ''/columns/'') h"
    "\<not> endswith h (u ''/columns'')" "length (strip (get_text k)) > 10"
  shows "link_step w k =
           (case get_column_content_enhanced w (full_url_of h) of
              Some b \<Rightarrow>
                if b \<noteq> [] \<and> b \<noteq> sentinel
                then Some \<lparr>title = strip (get_text k), author = u ''Unknown'',
                           url = full_url_of h, content = b, date = today w\<rparr>
                else None
            | None \<Rightarrow> None)"
  using assms by (simp add: link_step_def Let_def)

lemma link_step_content:
  "link_step w k = Some a \<Longrightarrow> content a \<noteq> [] \<and> content a \<noteq> sentinel"
  by (auto simp: link_step_def Let_def split: option.splits if_splits)

lemma cards_loop_all:
  "\<forall>a\<in>set acc. P a \<Longrightarrow> \<forall>c a. card_step w c = Inr (Some a) \<longrightarrow> P a \<Longrightarrow>
     cards_loop w acc cards = Inr R \<Longrightarrow> \<forall>a\<in>set R. P a"
proof (induction cards arbitrary: acc)
  case (Cons c cards)
  show ?case
  proof (cases "card_step w c")
    case (Inl e)
    then show ?thesis using Cons.prems(3) by simp
  next
    case (Inr r)
    show ?thesis
    proof (cases r)
      case None
      then show ?thesis using Cons Inr by simp
    next
      case (Some a)
      then have pa: "\<forall>b\<in>set (acc @ [a]). P b" using Cons.prems(1,2) Inr by auto
      show ?thesis
      proof (cases "length (acc @ [a]) \<ge> max_columns_per_day")
        case True
        then have "R = acc @ [a]" using Cons.prems(3) Inr Some by (simp add: Let_def)
        then show ?thesis using pa by simp
      next
        case False
        then have "cards_loop w (acc @ [a]) cards = Inr R"
          using Cons.prems(3) Inr Some by (simp add: Let_def)
        then show ?thesis using Cons.IH [OF pa Cons.prems(2)] by simp
      qed
    qed
  qed
qed simp

lemma links_loop_all:
  "\<forall>a\<in>set acc. P a \<Longrightarrow> \<forall>k a. link_step w k = Some a \<longrightarrow> P a \<Longrightarrow>
     \<forall>a\<in>set (links_loop w acc links). P a"
proof (induction links arbitrary: acc)
  case (Cons k links)
  show ?case
  proof (cases "link_step w k")
    case None
    then show ?thesis using Cons by simp
  next
    case (Some a)
    then have pa: "\<forall>b\<in>set (acc @ [a]). P b" using Cons.prems by auto
    show ?thesis using Some pa Cons.IH [OF pa Cons.prems(2)] by (simp add: Let_def)
  qed
qed simp

lemma card_step_accepts:
  "card_step w c = Inr (Some a) \<Longrightarrow> content a \<noteq> [] \<and> content a \<noteq> sentinel"
  using step_article_content [of w c a] by (simp add: step_article_def)

lemma lister_contents:
  "\<forall>a\<in>set (get_daily_sabah_columns_enhanced w). content a \<noteq> [] \<and> content a \<noteq> sentinel"
proof -
  let ?P = "\<lambda>a. content a \<noteq> [] \<and> content a \<noteq> sentinel"
  have l: "\<forall>a\<in>set (links_loop w [] links). ?P a" for links
    by (rule links_loop_all) (auto dest: link_step_content)
  have c: "cards_loop w [] cards = Inr R \<Longrightarrow> \<forall>a\<in>set R. ?P a" for cards R
    by (rule cards_loop_all [where acc = "[]"]) (auto dest: card_step_accepts)
  have c': "Inr R = cards_loop w [] cards \<Longrightarrow> \<forall>a\<in>set R. ?P a" for cards R
    using c [of cards R] by metis
  show ?thesis
    using l c'
    by (auto simp: get_daily_sabah_columns_enhanced_def Let_def split: sum.splits)
qed

lemma link_step_fetch_fails:
  "get_attr k (u ''href'') = Some h \<Longrightarrow> fetch_fails w (full_url_of h) \<Longrightarrow> link_step w k = None"
  by (simp add: link_step_def Let_def fetch_fails_content)

lemma cards_loop_prefix:
  "\<forall>c\<in>set pre. \<not> card_raises c \<Longrightarrow> length acc < max_columns_per_day \<Longrightarrow>
   post = [] \<or> max_columns_per_day \<le> length acc + length (filter (qualifies w) pre) \<Longrightarrow>
   cards_loop w acc (pre @ post)
     = Inr (take max_columns_per_day (acc @ List.map_filter (step_article w) pre))"
proof (induction pre arbitrary: acc)
  case Nil
  then show ?case by (auto simp: List.map_filter_simps)
next
  case (Cons c pre)
  have cs: "card_step w c = Inr (step_article w c)"
    using card_step_cases [of c w] Cons.prems(1) by auto
  have nr: "\<forall>c\<in>set pre. \<not> card_raises c" using Cons.prems(1) by simp
  show ?case
  proof (cases "step_article w c")
    case None
    then have "\<not> qualifies w c" using step_article_qualifies [of w c] by simp
    then have "post = [] \<or> max_columns_per_day \<le> length acc + length (filter (qualifies w) pre)"
      using Cons.prems(3) by simp
    from Cons.IH [OF nr Cons.prems(2) this] show ?thesis
      using cs None by (simp add: List.map_filter_simps)
  next
    case (Some a)
    then have q: "qualifies w c" using step_article_qualifies [of w c] by simp
    show ?thesis
    proof (cases "length (acc @ [a]) \<ge> max_columns_per_day")
      case True
      then have "max_columns_per_day - length acc = Suc 0" using Cons.prems(2) by simp
      then show ?thesis using cs Some True by (simp add: Let_def List.map_filter_simps)
    next
      case False
      then have l: "length (acc @ [a]) < max_columns_per_day" by simp
      have "post = [] \<or> max_columns_per_day
               \<le> length (acc @ [a]) + length (filter (qualifies w) pre)"
        using Cons.prems(3) q by simp
      from Cons.IH [OF nr l this] show ?thesis
        using cs Some False by (simp add: Let_def List.map_filter_simps)
    qed
  qed
qed

lemma links_loop_closed:
  "length acc < max_columns_per_day \<Longrightarrow>
   links_loop w acc links
     = take max_columns_per_day (acc @ List.map_filter (link_step w) links)"
proof (induction links arbitrary: acc)
  case Nil
  then show ?case by (simp add: List.map_filter_simps)
next
  case (Cons k links)
  show ?case
  proof (cases "link_step w k")
    case None
    then show ?thesis using Cons by (simp add: List.map_filter_simps)
  next
    case (Some a)
    show ?thesis
    proof (cases "length (acc @ [a]) \<ge> max_columns_per_day")
      case True
      then have "max_columns_per_day - length acc = Suc 0" using Cons.prems by simp
      then show ?thesis using Some True by (simp add: Let_def List.map_filter_simps)
    next
      case False
      then have "length (acc @ [a]) < max_columns_per_day" by simp
      from Cons.IH [OF this] show ?thesis
        using Some False by (simp add: Let_def List.map_filter_simps)
    qed
  qed
qed

lemma lister_fallback:
  assumes "http_get w NEWS_SOURCE_url = Inr response" "status_ok response"
    "parsed response = Inr soup" "select soup selectors_article_cards = []"
  shows "get_daily_sabah_columns_enhanced w
           = take max_columns_per_day
               (List.map_filter (link_step w) (find_all_href soup (u ''a'')))"
proof -
  have "get_daily_sabah_columns_enhanced w = links_loop w [] (find_all_href soup (u ''a''))"
    using assms by (simp add: get_daily_sabah_columns_enhanced_def Let_def)
  then show ?thesis
    using links_loop_closed [of "[]" w] by (simp add: max_columns_per_day_def)
qed

lemma lister_cards_prefix:
  assumes "http_get w NEWS_SOURCE_url = Inr response" "status_ok response"
    "parsed response = Inr soup" "select soup selectors_article_cards = pre @ post"
    "pre @ post \<noteq> []" "\<forall>c\<in>set pre. \<not> card_raises c"
    "post = [] \<or> max_columns_per_day \<le> length (filter (qualifies w) pre)"
  shows "get_daily_sabah_columns_enhanced w
           = take max_columns_per_day (List.map_filter (step_article w) pre)"
proof -
  have "cards_loop w [] (pre @ post)
          = Inr (take max_columns_per_day ([] @ List.map_filter (step_article w) pre))"
    using assms(7) by (intro cards_loop_prefix [OF assms(6)]) (simp_all add: max_columns_per_day_def)
  then show ?thesis
    using lister_fetched [OF assms(1-5)] by simp
qed

lemma in_take_append:
  "length A < n \<Longrightarrow> a \<in> set (take n (A @ a # B))"
proof -
  assume "length A < n"
  then obtain m where "n - length A = Suc m" by (cases "n - length A") auto
  then show ?thesis by simp
qed

lemma map_filter_append:
  "List.map_filter f (xs @ ys) = List.map_filter f xs @ List.map_filter f ys"
  by (simp add: List.map_filter_def)





lemma take_map_filter_member:
  assumes "R = take n (List.map_filter f (xs @ c # ys))" "f c = Some a"
    "length (filter (\<lambda>x. f x \<noteq> None) xs) < n"
  shows "a \<in> set R"
proof -
  have "R = take n (List.map_filter f xs @ a # List.map_filter f ys)"
    using assms(1,2) by (simp add: map_filter_append)
  moreover have "length (List.map_filter f xs) < n"
    using assms(3) by (simp add: map_filter_length)
  ultimately show ?thesis using in_take_append by metis
qed

lemmas lister_eval = get_daily_sabah_columns_enhanced_def card_step_def link_step_def
  get_column_content_enhanced_def get_column_content_app_def example_net_def
  example_card_def card_without_href_def six_cards_def page_article_def
  page_sentinel_text_def page_no_container_def card_raises_def qualifies_def
  card_content_def step_article_def fetch_fails_def get_daily_sabah_columns_app_def
  card_step_app_def card_step_scrape_def

section \<open>Proofs: the orchestrator\<close>

lemma numbered_Nil: "numbered i [] = []"
  by (simp add: numbered_def)

lemma numbered_Cons: "numbered i (x # xs) = (i, x) # numbered (Suc i) xs"
proof -
  have "[i ..< i + length (x # xs)] = i # [Suc i ..< Suc i + length xs]"
    by (subst upt_rec) simp
  then show ?thesis by (simp add: numbered_def)
qed

lemma text_to_speech_eq:
  "text_to_speech w t f tr =
     (if speech_ok w t (path_join output_directory f) then Some (path_join output_directory f)
      else None, tr @ [Speech t f])"
  by (simp add: text_to_speech_def Let_def)

lemma columns_loop_eq:
  "columns_loop w i pf tr columns =
     (pf @ List.map_filter (\<lambda>(j, c). entry_of w j c) (numbered i columns),
      tr @ concat (map (\<lambda>(j, c). column_events w j c) (numbered i columns)))"
proof (induction columns arbitrary: i pf tr)
  case Nil
  then show ?case by (simp add: numbered_Nil)
next
  case (Cons c columns)
  show ?case
    by (simp add: Cons.IH numbered_Cons text_to_speech_eq entry_of_def column_events_def
        filename_of_def Let_def List.map_filter_simps)
qed

lemma process_enhanced_demo:
  assumes "get_daily_sabah_columns_enhanced w = []"
  shows "process_daily_columns_enhanced w =
           ((let p = path_join output_directory (u ''turkish_demo_'' @ now_stamp w @ u ''.wav'')
             in if speech_ok w turkish_text_enhanced p \<and> p \<noteq> [] then [Demo p] else []),
            [ListColumns,
             Speech turkish_text_enhanced (u ''turkish_demo_'' @ now_stamp w @ u ''.wav'')])"
  using assms
  by (simp add: process_daily_columns_enhanced_def demo_turkish_tts_enhanced_def
      text_to_speech_eq truthy_def output_format_def Let_def)

lemma process_app_demo:
  assumes "get_daily_sabah_columns_app w = []"
  shows "process_daily_columns_app w =
           (Inr (DemoPath (let p = path_join output_directory (u ''turkish_demo.wav'')
                           in if speech_ok w turkish_text_app p \<and> p \<noteq> [] then Some p else None)),
            [ListColumns, Speech turkish_text_app (u ''turkish_demo.wav'')])"
  using assms
  by (simp add: process_daily_columns_app_def demo_turkish_tts_app_def
      text_to_speech_eq truthy_def Let_def)

lemma process_enhanced_columns:
  assumes "get_daily_sabah_columns_enhanced w = columns" "columns \<noteq> []"
  shows "process_daily_columns_enhanced w =
           (map Audio (List.map_filter (\<lambda>(j, c). entry_of w j c) (numbered 1 columns)),
            ListColumns # concat (map (\<lambda>(j, c). column_events w j c) (numbered 1 columns)))"
  using assms
  by (simp add: process_daily_columns_enhanced_def columns_loop_eq Let_def)

lemma path_join_not_Nil: "a \<noteq> [] \<Longrightarrow> path_join a b \<noteq> []"
  by (auto simp: path_join_def startswith_def)

lemma str_of_nat_digit: "n < 10 \<Longrightarrow> str_of_nat n = [48 + n]"
  by (subst str_of_nat.simps) simp

lemmas run_eval = output_directory_def output_format_def path_join_def filename_of_def
  entry_of_def create_safe_filename_def keep_char_def numbered_def format_02d_def
  part_jobs_def file_jobs_def all_jobs_def job_ok_def

section \<open>Proofs: ElevenLabs\<close>

lemma el_text_to_speech_eq:
  "el_text_to_speech w t p tr = (job_ok w (t, p), tr @ [Speech t p])"
  by (simp add: el_text_to_speech_def job_ok_def)

lemma part_jobs_Nil: "part_jobs out stem i [] = []"
  by (simp add: part_jobs_def numbered_Nil)

lemma part_jobs_Cons:
  "part_jobs out stem i (p # ps) =
     (p, path_join out (stem @ u ''_part'' @ format_02d (i + 1) @ u ''.mp3''))
       # part_jobs out stem (Suc i) ps"
  by (simp add: part_jobs_def numbered_Cons)

lemma parts_loop_eq:
  "parts_loop w out stem i k tr parts =
     (\<lparr>successful = successful k + length (filter (job_ok w) (part_jobs out stem i parts)),
       failed = failed k + length (filter (\<lambda>j. \<not> job_ok w j) (part_jobs out stem i parts))\<rparr>,
      tr @ map (\<lambda>j. Speech (fst j) (snd j)) (part_jobs out stem i parts))"
proof (induction parts arbitrary: i k tr)
  case Nil
  then show ?case by (simp add: part_jobs_Nil)
next
  case (Cons p parts)
  show ?case
    by (simp add: Cons.IH part_jobs_Cons el_text_to_speech_eq count_def Let_def)
qed

lemma all_jobs_Nil: "all_jobs out m [] = []"
  by (simp add: all_jobs_def)

lemma all_jobs_Cons:
  "all_jobs out m (f # fs) =
     (case file_jobs out m f of Some js \<Rightarrow> js | None \<Rightarrow> []) @ all_jobs out m fs"
  by (simp add: all_jobs_def)

lemma files_loop_eq:
  "files_loop w out m k tr files =
     (\<lparr>successful = successful k + length (filter (job_ok w) (all_jobs out m files)),
       failed = failed k + length (filter (\<lambda>j. \<not> job_ok w j) (all_jobs out m files))
                  + length (filter (\<lambda>f. file_jobs out m f = None) files)\<rparr>,
      tr @ map (\<lambda>j. Speech (fst j) (snd j)) (all_jobs out m files))"
proof (induction files arbitrary: k tr)
  case Nil
  then show ?case by (simp add: all_jobs_Nil)
next
  case (Cons f files)
  obtain stem fc where f: "f = (stem, fc)" by (cases f)
  show ?case
  proof (cases fc)
    case (Inl e)
    then show ?thesis
      by (simp add: f Cons.IH all_jobs_Cons file_jobs_def count_def)
  next
    case (Inr raw)
    show ?thesis
    proof (cases "strip raw = []")
      case True
      then show ?thesis
        by (simp add: f Inr Cons.IH all_jobs_Cons file_jobs_def count_def Let_def)
    next
      case False
      show ?thesis
      proof (cases "int (length (strip raw)) > m")
        case True
        then show ?thesis using False
          by (simp add: f Inr Cons.IH all_jobs_Cons file_jobs_def parts_loop_eq Let_def)
      next
        case long: False
        then show ?thesis using False
          by (simp add: f Inr Cons.IH all_jobs_Cons file_jobs_def el_text_to_speech_eq
              count_def Let_def)
      qed
    qed
  qed
qed

lemma process_news_articles_eq:
  assumes "makedirs_ok w" "folder_exists w" "text_files w \<noteq> []"
  shows "process_news_articles w out m =
     Inr (Some \<lparr>successful = length (filter (job_ok w) (all_jobs out m (text_files w))),
                failed = length (filter (\<lambda>j. \<not> job_ok w j) (all_jobs out m (text_files w)))
                      + length (filter (\<lambda>f. file_jobs out m f = None) (text_files w))\<rparr>,
          map (\<lambda>j. Speech (fst j) (snd j)) (all_jobs out m (text_files w)))"
  using assms by (simp add: process_news_articles_def files_loop_eq)

section \<open>scrape\_riktpunkt.py: failures of the requests\<close>

lemma articles_loop_step_fails:
  "fetch_fails w a \<Longrightarrow> articles_loop w r acc (a # ys) = articles_loop w r acc ys"
  by (auto simp: fetch_fails_def split: sum.splits)

lemma articles_loop_skip:
  "fetch_fails w a \<Longrightarrow> articles_loop w r acc (xs @ a # ys) = articles_loop w r acc (xs @ ys)"
proof (induction xs arbitrary: acc)
  case Nil
  then show ?case using articles_loop_step_fails by simp
next
  case (Cons x xs)
  then show ?case by (simp split: sum.splits option.splits)
qed

lemma scrape_news_request_fails:
  "request_fails w (u ''https://riktpunkt.nu/'') \<Longrightarrow> scrape_news w r = Inr []"
  unfolding request_fails_def scrape_news_def by (auto split: sum.splits)

lemma scrape_news_parser_raises:
  "parser_raises w (u ''https://riktpunkt.nu/'') e \<Longrightarrow> \<not> is_request_exception e
   \<Longrightarrow> scrape_news w r = Inl e"
  unfolding parser_raises_def scrape_news_def by (auto split: sum.splits)

section \<open>The claims\<close>

subsection \<open>Claim C1\<close>

text \<open>
  C1, as amended.  For every text and every maximum length, \<open>split_text\<close> returns the
  sentences of the text (the pieces between the matches of the boundary pattern, stripped,
  the empty ones skipped), each exactly once and in their order, cut into consecutive
  non-empty groups, each group joined with \<open>". "\<close> into one chunk.  No chunk is empty, and a
  chunk longer than the maximum length consists of one sentence.  The result is empty
  exactly when the text has no sentence.
\<close>

theorem split_text_chunks:
  "\<exists>groups. split_text text max_length = map (join (u ''. '')) groups
      \<and> concat groups = sentences_of text
      \<and> (\<forall>g\<in>set groups. g \<noteq> [] \<and>
            (max_length < int (length (join (u ''. '') g)) \<longrightarrow> (\<exists>s. g = [s])))
      \<and> (\<forall>c\<in>set (split_text text max_length). c \<noteq> [])
      \<and> (split_text text max_length = [] \<longleftrightarrow> sentences_of text = [])"
proof -
  obtain groups where g: "split_text text max_length = map (join sep) groups"
    "concat groups = sentences_of text" "\<forall>g\<in>set groups. good_group max_length g"
    using split_text_groups by blast
  have ne: "\<forall>g\<in>set groups. g \<noteq> []" using g(3) by (auto simp: good_group_def)
  have cl: "\<forall>g\<in>set groups. \<forall>s\<in>set g. clean s"
    using g(2) sentences_clean [of _ "text"] by (metis concat_map_singleton set_concat UN_I)
  have "\<forall>g\<in>set groups. join sep g \<noteq> []"
    using ne cl clean_join [of _ sep] by (auto simp: clean_def)
  then have 1: "\<forall>c\<in>set (split_text text max_length). c \<noteq> []" using g(1) by auto
  have 2: "\<forall>g\<in>set groups. g \<noteq> [] \<and> (max_length < int (length (join sep g)) \<longrightarrow> (\<exists>s. g = [s]))"
    using g(3) by (auto simp: good_group_def)
  have 3: "split_text text max_length = [] \<longleftrightarrow> sentences_of text = []"
  proof
    assume "split_text text max_length = []"
    then have "groups = []" using g(1) by simp
    then show "sentences_of text = []" using g(2) by simp
  next
    assume "sentences_of text = []"
    then have "groups = []" using g(2) ne by (cases groups) auto
    then show "split_text text max_length = []" using g(1) by simp
  qed
  show ?thesis using g(1,2) 1 2 3 by blast
qed

text \<open>
  At \<open>max_length = 7\<close> the first sentence is longer than the bound and stands alone;
  the other two share a chunk.
\<close>

theorem split_text_chunks_witness:
  "sentences_of (u ''Hi there. Go! Now'') = [u ''Hi there'', u ''Go'', u ''Now'']
   \<and> split_text (u ''Hi there. Go! Now'') 7 = [u ''Hi there'', u ''Go. Now'']
   \<and> (\<exists>groups. map (join (u ''. '')) groups = [u ''Hi there'', u ''Go. Now'']
         \<and> concat groups = [u ''Hi there'', u ''Go'', u ''Now'']
         \<and> (\<forall>g\<in>set groups. g \<noteq> [] \<and>
               (7 < int (length (join (u ''. '') g)) \<longrightarrow> (\<exists>s. g = [s]))))"
proof -
  have s: "sentences_of (u ''Hi there. Go! Now'') = [u ''Hi there'', u ''Go'', u ''Now'']"
    by (simp add: sentences_of_def match_at_def is_term_def is_space_def strip_def)
  have c: "split_text (u ''Hi there. Go! Now'') 7 = [u ''Hi there'', u ''Go. Now'']"
    by (simp add: split_text_def match_at_def is_term_def is_space_def strip_def)
  from split_text_chunks [of "u ''Hi there. Go! Now''" 7]
  obtain groups where g:
    "split_text (u ''Hi there. Go! Now'') 7 = map (join (u ''. '')) groups"
    "concat groups = sentences_of (u ''Hi there. Go! Now'')"
    "\<forall>g\<in>set groups. g \<noteq> [] \<and> (7 < int (length (join (u ''. '') g)) \<longrightarrow> (\<exists>s. g = [s]))"
    by blast
  have m: "map (join (u ''. '')) groups = [u ''Hi there'', u ''Go. Now'']"
    using g(1) [symmetric] by (simp only: c)
  have k: "concat groups = [u ''Hi there'', u ''Go'', u ''Now'']"
    using g(2) by (simp only: s)
  show ?thesis
    by (intro conjI exI [of _ groups]) (rule s c m k g(3))+
qed

text \<open>
  The claim as it was stated promises a non-empty sequence for every text.  The empty
  text has no sentence, and the result is the empty list.
\<close>

theorem split_text_empty_counterexample:
  "(0::int) < 1 \<and> split_text [] 1 = []"
  by (simp add: split_text_def strip_def)

subsection \<open>Claim C2\<close>

text \<open>
  C2.  Chunking a chunk that \<open>split_text\<close> has produced, with the same maximum length,
  returns that chunk alone.
\<close>

theorem split_text_rechunk:
  assumes "c \<in> set (split_text t max_length)"
  shows "split_text c max_length = [c]"
proof -
  obtain groups where g: "split_text t max_length = map (join sep) groups"
    "concat groups = sentences_of t" "\<forall>g\<in>set groups. good_group max_length g"
    using split_text_groups by blast
  obtain g where gg: "g \<in> set groups" "c = join sep g" using assms g(1) by auto
  have good: "g \<noteq> []" "stable max_length g" using g(3) gg(1) by (auto simp: good_group_def)
  have cl: "\<forall>s\<in>set g. clean s"
    using g(2) gg(1) sentences_clean [of _ t] by (metis concat_map_singleton set_concat UN_I)
  have "pieces_ok (sentences_of t)"
    unfolding sentences_of_def by (intro pieces_ok_sentences pieces_ok_re_split)
  then have "pieces_ok g" using g(2) gg(1) pieces_ok_group by metis
  then have rs: "re_split c = g" using cl good(1) gg(2) re_split_join [of g] by simp
  have "clean c" using gg(2) good(1) cl by (simp add: clean_join)
  then have c: "strip c = c" "c \<noteq> []" by (auto simp: strip_of_clean clean_def)
  have "split_loop max_length [] [] g = ([], c)" using good(2) gg(2) by (simp add: stable_def)
  then show ?thesis using rs c by (simp add: split_text_def)
qed

theorem split_text_rechunk_witness:
  "u ''Go. Now'' \<in> set (split_text (u ''Hi there. Go! Now'') 7)
   \<and> split_text (u ''Go. Now'') 7 = [u ''Go. Now'']"
proof -
  have m: "u ''Go. Now'' \<in> set (split_text (u ''Hi there. Go! Now'') 7)"
    by (simp add: split_text_def match_at_def is_term_def is_space_def strip_def)
  show ?thesis
    using split_text_rechunk [OF m] m by simp
qed

subsection \<open>Claim C3\<close>

text \<open>
  C3, as amended.  When the first selector of the list that matches anything matches a
  container with at least one non-blank paragraph, the content is the texts of the
  paragraphs of that container, in document order, each stripped, the empty ones
  dropped, joined with a newline; the selectors after it have no effect.  When the first
  container that matches has no non-blank paragraph, the result is the sentinel, whatever
  the selectors after it match.
\<close>

theorem column_content_first_match:
  assumes "\<forall>s\<in>set pre. select_one soup s = None"
    and "select_one soup sel = Some content_div"
  shows "((\<exists>p\<in>set (find_all content_div (u ''p'')). strip (get_text p) \<noteq> []) \<longrightarrow>
           column_content soup (pre @ sel # post) =
             join [10] (filter (\<lambda>t. t \<noteq> [])
                          (map (\<lambda>p. strip (get_text p)) (find_all content_div (u ''p''))))
           \<and> column_content soup (pre @ sel # post) = column_content soup (pre @ sel # post'))
         \<and> ((\<forall>p\<in>set (find_all content_div (u ''p'')). strip (get_text p) = []) \<longrightarrow>
              column_content soup (pre @ sel # post) = sentinel)"
proof -
  have l: "content_loop soup (pre @ sel # post) = paragraphs_text content_div"
          "content_loop soup (pre @ sel # post') = paragraphs_text content_div"
    using assms(1,2) by (simp_all add: content_loop_first_match)
  have a: "column_content soup (pre @ sel # post) =
             join [10] (filter (\<lambda>t. t \<noteq> [])
                          (map (\<lambda>p. strip (get_text p)) (find_all content_div (u ''p''))))
           \<and> column_content soup (pre @ sel # post) = column_content soup (pre @ sel # post')"
    if "\<exists>p\<in>set (find_all content_div (u ''p'')). strip (get_text p) \<noteq> []"
  proof -
    have "paragraphs_text content_div \<noteq> []"
      using that by (rule paragraphs_text_not_Nil)
    then show ?thesis using l by (simp add: column_content_def paragraphs_text_alt)
  qed
  have b: "column_content soup (pre @ sel # post) = sentinel"
    if "\<forall>p\<in>set (find_all content_div (u ''p'')). strip (get_text p) = []"
  proof -
    have "filter (\<lambda>p. strip (get_text p) \<noteq> []) (find_all content_div (u ''p'')) = []"
      using that by (simp add: filter_empty_conv)
    then have "paragraphs_text content_div = []"
      by (simp add: paragraphs_text_def)
    then show ?thesis using l by (simp add: column_content_def)
  qed
  show ?thesis using a b by blast
qed

text \<open>
  With the configured selectors on a page whose \<open>div.content\<close> is the first container
  that matches: the \<open>article\<close> further down matches a later selector and changes
  nothing.  On a page whose \<open>div.content\<close> is empty, the result is the sentinel.
\<close>

theorem column_content_first_match_witness:
  "select_one page_content_then_article (u ''div.article-content'') = None
   \<and> column_content page_content_then_article content_selectors
       = u ''Hello.'' @ [10] @ u ''World.''
   \<and> column_content page_content_then_article [u ''div.article-content'', u ''div.content'']
       = u ''Hello.'' @ [10] @ u ''World.''
   \<and> select_one page_two_containers (u ''div.content'')
       = Some (Tag (u ''div'') [u ''content''] [] [])
   \<and> column_content page_two_containers content_selectors = sentinel"
proof -
  let ?div = "Tag (u ''div'') [u ''content''] [] [para ''Hello. '', para ''  '', para '' World.'']"
  let ?empty = "Tag (u ''div'') [u ''content''] [] []"
  have n: "\<forall>s\<in>set [u ''div.article-content'']. select_one page_content_then_article s = None"
    by (simp add: page_content_then_article_def html_eval)
  have m: "select_one page_content_then_article (u ''div.content'') = Some ?div"
    by (simp add: page_content_then_article_def html_eval)
  have p: "\<exists>p\<in>set (find_all ?div (u ''p'')). strip (get_text p) \<noteq> []"
    by (simp add: html_eval)
  have j: "join [10] (filter (\<lambda>t. t \<noteq> [])
              (map (\<lambda>p. strip (get_text p)) (find_all ?div (u ''p''))))
           = u ''Hello.'' @ [10] @ u ''World.''"
    by (simp add: html_eval)
  have s: "content_selectors = [u ''div.article-content''] @ u ''div.content'' #
             [u ''div.post-content'', u ''article'', u ''div.entry-content'']"
    by (simp add: content_selectors_def)
  from column_content_first_match [OF n m, of _ "[]"] p
  have "column_content page_content_then_article content_selectors
          = u ''Hello.'' @ [10] @ u ''World.''"
       "column_content page_content_then_article
          ([u ''div.article-content''] @ u ''div.content'' # [])
          = u ''Hello.'' @ [10] @ u ''World.''"
    unfolding s j by metis+
  then have 1: "select_one page_content_then_article (u ''div.article-content'') = None
   \<and> column_content page_content_then_article content_selectors
       = u ''Hello.'' @ [10] @ u ''World.''
   \<and> column_content page_content_then_article [u ''div.article-content'', u ''div.content'']
       = u ''Hello.'' @ [10] @ u ''World.''"
    using n by simp
  have n2: "\<forall>s\<in>set [u ''div.article-content'']. select_one page_two_containers s = None"
    by (simp add: page_two_containers_def html_eval)
  have m2: "select_one page_two_containers (u ''div.content'') = Some ?empty"
    by (simp add: page_two_containers_def html_eval)
  have p2: "\<forall>p\<in>set (find_all ?empty (u ''p'')). strip (get_text p) = []"
    by (simp add: html_eval)
  from column_content_first_match [OF n2 m2] p2
  have "column_content page_two_containers
          ([u ''div.article-content''] @ u ''div.content'' #
             [u ''div.post-content'', u ''article'', u ''div.entry-content'']) = sentinel"
    by blast
  then have 2: "column_content page_two_containers content_selectors = sentinel"
    unfolding s .
  show ?thesis using 1 m2 2 by simp
qed

text \<open>
  The claim as it was stated asks only that some selector of the list matches a container
  with a non-blank paragraph.  Here \<open>article\<close> does, but \<open>div.content\<close> comes first in the
  list and matches an empty container: the loop stops there, the content is empty, and the
  result is the sentinel, not the paragraph.
\<close>

theorem column_content_later_selector_counterexample:
  "select_one page_two_containers (u ''div.article-content'') = None
   \<and> select_one page_two_containers (u ''div.content'')
       = Some (Tag (u ''div'') [u ''content''] [] [])
   \<and> select_one page_two_containers (u ''article'')
       = Some (Tag (u ''article'') [] [] [para '' Hello ''])
   \<and> paragraphs_text (Tag (u ''article'') [] [] [para '' Hello '']) = u ''Hello''
   \<and> column_content page_two_containers content_selectors
       = u ''Content could not be extracted''"
  by (simp add: page_two_containers_def html_eval)

subsection \<open>Claim C4\<close>

text \<open>
  C4.  When no selector of the list matches anything in the page, the content is the
  sentinel; and for a page that was fetched and parsed, \<open>get_column_content\<close> returns
  it as its value, in news\_tts\_app.py and in news\_tts\_app\_enhanced.py.
\<close>

theorem column_content_no_match:
  assumes "\<forall>s\<in>set selectors. select_one soup s = None"
  shows "column_content soup selectors = u ''Content could not be extracted''
         \<and> (selectors = content_selectors \<and> http_get w address = Inr response
              \<and> status_ok response \<and> parsed response = Inr soup
              \<longrightarrow> get_column_content_app w address = Some (u ''Content could not be extracted'')
                \<and> get_column_content_enhanced w address
                    = Some (u ''Content could not be extracted''))"
proof -
  have c: "column_content soup selectors = u ''Content could not be extracted''"
    using assms by (simp add: column_content_def content_loop_no_match sentinel_def)
  show ?thesis using c get_column_content_fetched [of w address response soup] by auto
qed

theorem column_content_no_match_witness:
  "get_column_content_enhanced
     (example_world (\<lambda>a. ok_page page_no_container) (\<lambda>t p. True)) (u ''https://x'')
     = Some (u ''Content could not be extracted'')
   \<and> get_column_content_app
     (example_world (\<lambda>a. ok_page page_no_container) (\<lambda>t p. True)) (u ''https://x'')
     = Some (u ''Content could not be extracted'')
   \<and> column_content page_no_container content_selectors = u ''Content could not be extracted''"
proof -
  let ?w = "example_world (\<lambda>a. ok_page page_no_container) (\<lambda>t p. True)"
  have n: "\<forall>s\<in>set content_selectors. select_one page_no_container s = None"
    by (simp add: page_no_container_def html_eval)
  have f: "http_get ?w (u ''https://x'') = Inr \<lparr>status_ok = True, parsed = Inr page_no_container\<rparr>"
    by (simp add: example_world_def ok_page_def)
  show ?thesis
    using column_content_no_match [OF n, of ?w "u ''https://x''"
            "\<lparr>status_ok = True, parsed = Inr page_no_container\<rparr>"] f
    by simp
qed

subsection \<open>Claim C5\<close>

text \<open>
  C5 says that a listing page with more qualifying articles than the cap (5) gives exactly
  as many articles as the cap, in document order.  In news\_tts\_app\_enhanced.py the card
  path reads \<open>link_elem.get('href')\<close> and calls \<open>startswith\<close> on it unchecked, where
  the fallback path of the same function tests \<open>if href\<close> first.  On the page below six
  cards qualify and a card before them has a link without \<open>href\<close>: the call raises, the
  handler of the lister catches it, and the lister returns the empty list instead of five
  articles.  The same six cards alone give the first five articles, and so do they when
  the card without \<open>href\<close> comes after them, where the loop has already stopped.
\<close>

theorem lister_cap_failing_input:
  "length (filter (qualifies (example_world
             (example_net (card_without_href # six_cards)) (\<lambda>t p. True)))
          (card_without_href # six_cards)) = 6
   \<and> max_columns_per_day = 5
   \<and> get_daily_sabah_columns_enhanced (example_world
         (example_net (card_without_href # six_cards)) (\<lambda>t p. True)) = []
   \<and> map title (get_daily_sabah_columns_enhanced (example_world
         (example_net six_cards) (\<lambda>t p. True)))
       = [u ''T1'', u ''T2'', u ''T3'', u ''T4'', u ''T5'']
   \<and> map title (get_daily_sabah_columns_enhanced (example_world
         (example_net (six_cards @ [card_without_href])) (\<lambda>t p. True)))
       = [u ''T1'', u ''T2'', u ''T3'', u ''T4'', u ''T5'']"
proof -
  have 1: "length (filter (qualifies (example_world
             (example_net (card_without_href # six_cards)) (\<lambda>t p. True)))
          (card_without_href # six_cards)) = 6"
    by (simp add: html_eval lister_eval)
  have 2: "max_columns_per_day = 5"
    by (simp add: max_columns_per_day_def)
  have 3: "get_daily_sabah_columns_enhanced (example_world
         (example_net (card_without_href # six_cards)) (\<lambda>t p. True)) = []"
    by (simp add: html_eval lister_eval)
  have 4: "map title (get_daily_sabah_columns_enhanced (example_world
         (example_net six_cards) (\<lambda>t p. True)))
       = [u ''T1'', u ''T2'', u ''T3'', u ''T4'', u ''T5'']"
    by (simp add: html_eval lister_eval)
  have 5: "map title (get_daily_sabah_columns_enhanced (example_world
         (example_net (six_cards @ [card_without_href])) (\<lambda>t p. True)))
       = [u ''T1'', u ''T2'', u ''T3'', u ''T4'', u ''T5'']"
    by (simp add: html_eval lister_eval)
  show ?thesis using 1 2 3 4 5 by (intro conjI)
qed

subsection \<open>Claim C6\<close>




subsection \<open>Claim C7\<close>

text \<open>
  C7, for the two listers it names.  In news\_tts\_app\_enhanced.py, when the listing page
  cannot be fetched or parsed (the request raises, the status is an error, or the parser
  raises), the lister returns the empty list.  In scrape\_riktpunkt.py the handler around
  the listing is for the exceptions of the request only: when the request raises one, or
  the status is an error, \<open>scrape_news\<close> returns the empty list, and when the parser
  raises on the listing page, the exception leaves \<open>scrape_news\<close>.  In both, when the
  page of one article cannot be fetched or parsed, the loop goes on as if that card, link
  or address were not in the list: what comes after it is processed as before.
\<close>

theorem fetch_failures:
  "(fetch_fails w NEWS_SOURCE_url \<longrightarrow> get_daily_sabah_columns_enhanced w = [])
   \<and> (select_one c selectors_title = Some te \<and> select_one c selectors_link = Some le
        \<and> get_attr le (u ''href'') = Some l \<and> fetch_fails w (full_url_of l)
      \<longrightarrow> cards_loop w acc (xs @ c # ys) = cards_loop w acc (xs @ ys))
   \<and> (get_attr k (u ''href'') = Some h \<and> fetch_fails w (full_url_of h)
      \<longrightarrow> links_loop w acc (ks @ k # ks') = links_loop w acc (ks @ ks'))
   \<and> (request_fails w (u ''https://riktpunkt.nu/'') \<longrightarrow> scrape_news w r = Inr [])
   \<and> (parser_raises w (u ''https://riktpunkt.nu/'') e \<and> \<not> is_request_exception e
      \<longrightarrow> scrape_news w r = Inl e)
   \<and> (fetch_fails w a
      \<longrightarrow> articles_loop w r found (as @ a # as') = articles_loop w r found (as @ as'))"
proof -
  have 1: "fetch_fails w NEWS_SOURCE_url \<longrightarrow> get_daily_sabah_columns_enhanced w = []"
    using fetch_fails_listing by blast
  have 2: "select_one c selectors_title = Some te \<and> select_one c selectors_link = Some le
        \<and> get_attr le (u ''href'') = Some l \<and> fetch_fails w (full_url_of l)
      \<longrightarrow> cards_loop w acc (xs @ c # ys) = cards_loop w acc (xs @ ys)"
    using card_step_fetch_fails [of c te le l w] cards_loop_skip [of w c acc xs ys] by blast
  have 3: "get_attr k (u ''href'') = Some h \<and> fetch_fails w (full_url_of h)
      \<longrightarrow> links_loop w acc (ks @ k # ks') = links_loop w acc (ks @ ks')"
    using link_step_fetch_fails [of k h w] links_loop_skip [of w k acc ks ks'] by blast
  have 4: "request_fails w (u ''https://riktpunkt.nu/'') \<longrightarrow> scrape_news w r = Inr []"
    using scrape_news_request_fails [of w r] by blast
  have 5: "parser_raises w (u ''https://riktpunkt.nu/'') e \<and> \<not> is_request_exception e
      \<longrightarrow> scrape_news w r = Inl e"
    using scrape_news_parser_raises [of w e r] by blast
  have 6: "fetch_fails w a
      \<longrightarrow> articles_loop w r found (as @ a # as') = articles_loop w r found (as @ as')"
    using articles_loop_skip [of w a r found as as'] by blast
  show ?thesis using 1 2 3 4 5 6 by (intro conjI)
qed

text \<open>
  A world in which every request fails; a listing of two cards, or of two links, of which
  the first leads to a page that cannot be fetched; a world in which the parser raises on
  every page.
\<close>

theorem fetch_failures_witness:
  "get_daily_sabah_columns_enhanced (example_world (\<lambda>a. Inl RequestException) (\<lambda>t p. True)) = []
   \<and> fetch_fails
       (example_world (example_net [example_card ''T0'' ''/columns/missing'',
                                     example_card ''T1'' ''/columns/a'']) (\<lambda>t p. True))
       (u ''https://www.dailysabah.com/columns/missing'')
   \<and> cards_loop
       (example_world (example_net [example_card ''T0'' ''/columns/missing'',
                                     example_card ''T1'' ''/columns/a'']) (\<lambda>t p. True))
       [] [example_card ''T0'' ''/columns/missing'', example_card ''T1'' ''/columns/a'']
     = Inr [\<lparr>title = u ''T1'', author = u ''Unknown'',
             url = u ''https://www.dailysabah.com/columns/a'',
             content = u ''Hello.'' @ [10] @ u ''World.'', date = u ''2024-01-02''\<rparr>]
   \<and> links_loop
       (example_world (example_net []) (\<lambda>t p. True))
       [] [Tag (u ''a'') [] [(u ''href'', u ''/columns/missing'')]
             [NavigableString (u ''A column that is missing'')],
           Tag (u ''a'') [] [(u ''href'', u ''/columns/a'')]
             [NavigableString (u ''A column that is there'')]]
     = [\<lparr>title = u ''A column that is there'', author = u ''Unknown'',
         url = u ''https://www.dailysabah.com/columns/a'',
         content = u ''Hello.'' @ [10] @ u ''World.'', date = u ''2024-01-02''\<rparr>]
   \<and> scrape_news (example_world (\<lambda>a. Inl RequestException) (\<lambda>t p. True)) example_rk_env
     = Inr []
   \<and> scrape_news (example_world unparsable (\<lambda>t p. True)) example_rk_env = Inl ParserError
   \<and> articles_loop (example_world (\<lambda>a. Inl RequestException) (\<lambda>t p. True)) example_rk_env
       [] [u ''https://riktpunkt.nu/2024/01/a/'', u ''https://riktpunkt.nu/2024/01/b/'']
     = articles_loop (example_world (\<lambda>a. Inl RequestException) (\<lambda>t p. True)) example_rk_env
       [] [u ''https://riktpunkt.nu/2024/01/b/'']"
proof -
  let ?a = "example_card ''T0'' ''/columns/missing''"
  let ?b = "example_card ''T1'' ''/columns/a''"
  let ?w = "example_world (example_net [?a, ?b]) (\<lambda>t p. True)"
  let ?v = "example_world (\<lambda>a. Inl RequestException) (\<lambda>t p. True)"
  let ?x = "example_world (example_net []) (\<lambda>t p. True)"
  let ?p = "example_world unparsable (\<lambda>t p. True)"
  let ?te = "Tag (u ''h3'') [] [] [NavigableString (u ''T0'')]"
  let ?le = "Tag (u ''a'') [u ''card''] [(u ''href'', u ''/columns/missing'')] []"
  let ?k = "Tag (u ''a'') [] [(u ''href'', u ''/columns/missing'')]
              [NavigableString (u ''A column that is missing'')]"
  let ?j = "Tag (u ''a'') [] [(u ''href'', u ''/columns/a'')]
              [NavigableString (u ''A column that is there'')]"
  let ?res = "\<lparr>title = u ''T1'', author = u ''Unknown'',
               url = u ''https://www.dailysabah.com/columns/a'',
               content = u ''Hello.'' @ [10] @ u ''World.'', date = u ''2024-01-02''\<rparr>"
  let ?res' = "\<lparr>title = u ''A column that is there'', author = u ''Unknown'',
               url = u ''https://www.dailysabah.com/columns/a'',
               content = u ''Hello.'' @ [10] @ u ''World.'', date = u ''2024-01-02''\<rparr>"
  have f0: "fetch_fails ?v NEWS_SOURCE_url"
    by (simp add: html_eval lister_eval)
  have 1: "get_daily_sabah_columns_enhanced ?v = []"
    using fetch_failures [of ?v] f0 by blast
  have f: "fetch_fails ?w (u ''https://www.dailysabah.com/columns/missing'')"
    by (simp add: html_eval lister_eval)
  have h: "select_one ?a selectors_title = Some ?te \<and> select_one ?a selectors_link = Some ?le
        \<and> get_attr ?le (u ''href'') = Some (u ''/columns/missing'')
        \<and> fetch_fails ?w (full_url_of (u ''/columns/missing''))"
    by (simp add: html_eval lister_eval)
  have "cards_loop ?w [] ([] @ ?a # [?b]) = cards_loop ?w [] ([] @ [?b])"
    using fetch_failures [of ?w ?a ?te ?le "u ''/columns/missing''" "[]" "[]" "[?b]"] h
    by blast
  moreover have "cards_loop ?w [] [?b] = Inr [?res]"
    by (simp add: html_eval lister_eval)
  ultimately have 2: "cards_loop ?w [] [?a, ?b] = Inr [?res]"
    by simp
  have g: "get_attr ?k (u ''href'') = Some (u ''/columns/missing'')
        \<and> fetch_fails ?x (full_url_of (u ''/columns/missing''))"
    by (simp add: html_eval lister_eval)
  have "links_loop ?x [] ([] @ ?k # [?j]) = links_loop ?x [] ([] @ [?j])"
    using fetch_failures [where w = ?x and k = ?k and h = "u ''/columns/missing''"
                            and acc = "[]" and ks = "[]" and ks' = "[?j]"] g
    by blast
  moreover have "links_loop ?x [] [?j] = [?res']"
    by (simp add: html_eval lister_eval)
  ultimately have 3: "links_loop ?x [] [?k, ?j] = [?res']"
    by simp
  have r: "request_fails ?v (u ''https://riktpunkt.nu/'')"
    by (simp add: request_fails_def is_request_exception_def example_world_def)
  have 4: "scrape_news ?v example_rk_env = Inr []"
    using fetch_failures [where w = ?v and r = example_rk_env] r by blast
  have p: "parser_raises ?p (u ''https://riktpunkt.nu/'') ParserError
           \<and> \<not> is_request_exception ParserError"
    by (simp add: parser_raises_def is_request_exception_def example_world_def unparsable_def)
  have 5: "scrape_news ?p example_rk_env = Inl ParserError"
    using fetch_failures [where w = ?p and r = example_rk_env and e = ParserError] p by blast
  have q: "fetch_fails ?v (u ''https://riktpunkt.nu/2024/01/a/'')"
    by (simp add: fetch_fails_def example_world_def)
  have "articles_loop ?v example_rk_env []
          ([] @ u ''https://riktpunkt.nu/2024/01/a/'' # [u ''https://riktpunkt.nu/2024/01/b/''])
        = articles_loop ?v example_rk_env [] ([] @ [u ''https://riktpunkt.nu/2024/01/b/''])"
    using fetch_failures [where w = ?v and r = example_rk_env
                            and a = "u ''https://riktpunkt.nu/2024/01/a/''" and found = "[]"
                            and as = "[]" and as' = "[u ''https://riktpunkt.nu/2024/01/b/'']"] q
    by blast
  then have 6: "articles_loop ?v example_rk_env []
          [u ''https://riktpunkt.nu/2024/01/a/'', u ''https://riktpunkt.nu/2024/01/b/'']
        = articles_loop ?v example_rk_env [] [u ''https://riktpunkt.nu/2024/01/b/'']"
    by simp
  show ?thesis using 1 f 2 3 4 5 6 by (intro conjI)
qed

text \<open>
  The claim as it was stated, with \<open>scrape_news\<close> as the lister: the listing page is
  served, the parser raises on it, and the result is the exception, not the empty list.
\<close>

theorem fetch_failures_counterexample:
  "fetch_fails (example_world unparsable (\<lambda>t p. True)) (u ''https://riktpunkt.nu/'')
   \<and> scrape_news (example_world unparsable (\<lambda>t p. True)) example_rk_env = Inl ParserError"
  by (simp add: fetch_fails_def scrape_news_def example_world_def unparsable_def
                is_request_exception_def)

subsection \<open>Claim C8\<close>

text \<open>
  C8.  When the lister returns no article, the orchestrator calls the lister once and
  sends one speech request, for the canned demonstration text, and nothing else; at most
  one demo file comes out of the run.  This holds in news\_tts\_app\_enhanced.py and in
  news\_tts\_app.py.
\<close>

theorem demo_once:
  "(get_daily_sabah_columns_enhanced w = [] \<longrightarrow>
      snd (process_daily_columns_enhanced w)
        = [ListColumns,
           Speech turkish_text_enhanced (u ''turkish_demo_'' @ now_stamp w @ u ''.wav'')]
      \<and> fst (process_daily_columns_enhanced w)
        = (if speech_ok w turkish_text_enhanced
               (path_join output_directory (u ''turkish_demo_'' @ now_stamp w @ u ''.wav''))
           then [Demo (path_join output_directory
                         (u ''turkish_demo_'' @ now_stamp w @ u ''.wav''))]
           else [])
      \<and> length (fst (process_daily_columns_enhanced w)) \<le> 1)
   \<and> (get_daily_sabah_columns_app w = [] \<longrightarrow>
      process_daily_columns_app w
        = (Inr (DemoPath
                  (if speech_ok w turkish_text_app
                        (path_join output_directory (u ''turkish_demo.wav''))
                   then Some (path_join output_directory (u ''turkish_demo.wav''))
                   else None)),
           [ListColumns, Speech turkish_text_app (u ''turkish_demo.wav'')]))"
proof -
  have ne: "path_join output_directory f \<noteq> []" for f
    by (rule path_join_not_Nil) (simp add: output_directory_def)
  have 1: "get_daily_sabah_columns_enhanced w = [] \<longrightarrow>
      snd (process_daily_columns_enhanced w)
        = [ListColumns,
           Speech turkish_text_enhanced (u ''turkish_demo_'' @ now_stamp w @ u ''.wav'')]
      \<and> fst (process_daily_columns_enhanced w)
        = (if speech_ok w turkish_text_enhanced
               (path_join output_directory (u ''turkish_demo_'' @ now_stamp w @ u ''.wav''))
           then [Demo (path_join output_directory
                         (u ''turkish_demo_'' @ now_stamp w @ u ''.wav''))]
           else [])
      \<and> length (fst (process_daily_columns_enhanced w)) \<le> 1"
    using process_enhanced_demo [of w] ne by (simp add: Let_def)
  have 2: "get_daily_sabah_columns_app w = [] \<longrightarrow>
      process_daily_columns_app w
        = (Inr (DemoPath
                  (if speech_ok w turkish_text_app
                        (path_join output_directory (u ''turkish_demo.wav''))
                   then Some (path_join output_directory (u ''turkish_demo.wav''))
                   else None)),
           [ListColumns, Speech turkish_text_app (u ''turkish_demo.wav'')])"
    using process_app_demo [of w] ne by (simp add: Let_def)
  show ?thesis using 1 2 by (rule conjI)
qed

text \<open>
  A world in which every request fails: the lister returns nothing, and the demo is
  synthesized once.
\<close>

theorem demo_once_witness:
  "get_daily_sabah_columns_enhanced (example_world (\<lambda>a. Inl RequestException) (\<lambda>t p. True)) = []
   \<and> process_daily_columns_enhanced (example_world (\<lambda>a. Inl RequestException) (\<lambda>t p. True))
     = ([Demo (u ''audio_files/turkish_demo_20240102_090000.wav'')],
        [ListColumns, Speech turkish_text_enhanced (u ''turkish_demo_20240102_090000.wav'')])
   \<and> process_daily_columns_app (example_world (\<lambda>a. Inl RequestException) (\<lambda>t p. True))
     = (Inr (DemoPath (Some (u ''audio_files/turkish_demo.wav''))),
        [ListColumns, Speech turkish_text_app (u ''turkish_demo.wav'')])"
proof -
  let ?w = "example_world (\<lambda>a. Inl RequestException) (\<lambda>t p. True)"
  have e: "get_daily_sabah_columns_enhanced ?w = []"
    by (simp add: html_eval lister_eval)
  have a: "get_daily_sabah_columns_app ?w = []"
    by (simp add: html_eval lister_eval)
  have s: "speech_ok ?w = (\<lambda>t p. True)" "now_stamp ?w = u ''20240102_090000''"
    by (simp_all add: example_world_def)
  have p: "path_join output_directory (u ''turkish_demo_'' @ u ''20240102_090000'' @ u ''.wav'')
             = u ''audio_files/turkish_demo_20240102_090000.wav''"
          "path_join output_directory (u ''turkish_demo.wav'') = u ''audio_files/turkish_demo.wav''"
    by (simp_all add: run_eval startswith_def endswith_def)
  from demo_once [of ?w] e a
  have "snd (process_daily_columns_enhanced ?w)
          = [ListColumns, Speech turkish_text_enhanced (u ''turkish_demo_20240102_090000.wav'')]"
       "fst (process_daily_columns_enhanced ?w)
          = [Demo (u ''audio_files/turkish_demo_20240102_090000.wav'')]"
       "process_daily_columns_app ?w
          = (Inr (DemoPath (Some (u ''audio_files/turkish_demo.wav''))),
             [ListColumns, Speech turkish_text_app (u ''turkish_demo.wav'')])"
    unfolding s p by simp_all
  then show ?thesis using e by (simp add: prod_eq_iff)
qed

subsection \<open>Claim C9\<close>

text \<open>
  C9.  In news\_tts\_app\_enhanced.py, when the lister returns articles, the orchestrator
  sends one speech request for every article, in order, whatever the outcome of the
  others; after the request of an article whose synthesis fails it records the failure
  (the error line with the title) and goes on; its result has the entry of exactly those
  articles whose synthesis succeeded.
  In elevenlabs\_tts.py, once the output folder is made, \<open>process_news_articles\<close>
  sends one request for every article or part, in order, counts every success and every
  failure, and goes on after a failure.
\<close>

theorem synthesis_failures_skipped:
  "(get_daily_sabah_columns_enhanced w = columns \<and> columns \<noteq> [] \<longrightarrow>
      process_daily_columns_enhanced w
        = (map Audio (List.map_filter (\<lambda>(j, c). entry_of w j c) (numbered 1 columns)),
           ListColumns # concat (map (\<lambda>(j, c). column_events w j c) (numbered 1 columns))))
   \<and> (makedirs_ok ew \<and> folder_exists ew \<and> text_files ew \<noteq> [] \<longrightarrow>
      process_news_articles ew output_folder max_length
        = Inr (Some \<lparr>successful =
                   length (filter (job_ok ew) (all_jobs output_folder max_length (text_files ew))),
                 failed =
                   length (filter (\<lambda>j. \<not> job_ok ew j)
                                  (all_jobs output_folder max_length (text_files ew)))
                   + length (filter (\<lambda>f. file_jobs output_folder max_length f = None)
                                    (text_files ew))\<rparr>,
           map (\<lambda>j. Speech (fst j) (snd j))
               (all_jobs output_folder max_length (text_files ew))))"
proof -
  have 1: "get_daily_sabah_columns_enhanced w = columns \<and> columns \<noteq> [] \<longrightarrow>
      process_daily_columns_enhanced w
        = (map Audio (List.map_filter (\<lambda>(j, c). entry_of w j c) (numbered 1 columns)),
           ListColumns # concat (map (\<lambda>(j, c). column_events w j c) (numbered 1 columns)))"
    using process_enhanced_columns [of w columns] by blast
  have 2: "makedirs_ok ew \<and> folder_exists ew \<and> text_files ew \<noteq> [] \<longrightarrow>
      process_news_articles ew output_folder max_length
        = Inr (Some \<lparr>successful =
                   length (filter (job_ok ew) (all_jobs output_folder max_length (text_files ew))),
                 failed =
                   length (filter (\<lambda>j. \<not> job_ok ew j)
                                  (all_jobs output_folder max_length (text_files ew)))
                   + length (filter (\<lambda>f. file_jobs output_folder max_length f = None)
                                    (text_files ew))\<rparr>,
           map (\<lambda>j. Speech (fst j) (snd j))
               (all_jobs output_folder max_length (text_files ew)))"
    using process_news_articles_eq [of ew output_folder max_length] by blast
  show ?thesis using 1 2 by (rule conjI)
qed

text \<open>
  Three articles of which the second cannot be synthesized: three requests, the record
  of the failure after the second, and the entries of the first and of the third.  Three files, the first in two parts of which the
  first fails, the second unreadable: three requests, two successes, two failures.
\<close>

theorem synthesis_failures_skipped_witness:
  "map title (get_daily_sabah_columns_enhanced
       (example_world (example_net three_cards)
          (\<lambda>t p. p \<noteq> u ''audio_files/20240102_2_T2.wav'')))
     = [u ''T1'', u ''T2'', u ''T3'']
   \<and> map (\<lambda>x. case x of Audio e \<Rightarrow> audio_file e | Demo p \<Rightarrow> p)
       (fst (process_daily_columns_enhanced
          (example_world (example_net three_cards)
             (\<lambda>t p. p \<noteq> u ''audio_files/20240102_2_T2.wav''))))
     = [u ''audio_files/20240102_1_T1.wav'', u ''audio_files/20240102_3_T3.wav'']
   \<and> snd (process_daily_columns_enhanced
          (example_world (example_net three_cards)
             (\<lambda>t p. p \<noteq> u ''audio_files/20240102_2_T2.wav'')))
     = [ListColumns,
        Speech (u ''Hello.'' @ [10] @ u ''World.'') (u ''20240102_1_T1.wav''),
        Speech (u ''Hello.'' @ [10] @ u ''World.'') (u ''20240102_2_T2.wav''),
        ColumnFailed (u ''T2''),
        Speech (u ''Hello.'' @ [10] @ u ''World.'') (u ''20240102_3_T3.wav'')]
   \<and> process_news_articles example_el_world (u ''audio_news'') 7
     = Inr (Some \<lparr>successful = 2, failed = 2\<rparr>,
        [Speech (u ''Hi there'') (u ''audio_news/a_part01.mp3''),
         Speech (u ''Go. Now'') (u ''audio_news/a_part02.mp3''),
         Speech (u ''ok'') (u ''audio_news/c.mp3'')])"
proof -
  let ?w = "example_world (example_net three_cards)
              (\<lambda>t p. p \<noteq> u ''audio_files/20240102_2_T2.wav'')"
  let ?a = "\<lambda>t. \<lparr>title = u t, author = u ''Unknown'',
                   url = u ''https://www.dailysabah.com/columns/a'',
                   content = u ''Hello.'' @ [10] @ u ''World.'', date = u ''2024-01-02''\<rparr>"
  let ?cols = "[?a ''T1'', ?a ''T2'', ?a ''T3'']"
  have l: "get_daily_sabah_columns_enhanced ?w = ?cols"
    by (simp add: html_eval lister_eval three_cards_def)
  have ne: "?cols \<noteq> []" by simp
  have n: "numbered 1 ?cols = [(Suc 0, ?a ''T1''), (2, ?a ''T2''), (3, ?a ''T3'')]"
    by (simp add: numbered_Cons numbered_Nil)
  have f: "filename_of ?w (Suc 0) (?a ''T1'') = u ''20240102_1_T1.wav''"
          "filename_of ?w 2 (?a ''T2'') = u ''20240102_2_T2.wav''"
          "filename_of ?w 3 (?a ''T3'') = u ''20240102_3_T3.wav''"
    by (simp_all add: filename_of_def create_safe_filename_def keep_char_def output_format_def
        example_world_def strip_def is_space_def str_of_nat_digit)
  have pj: "path_join output_directory (u ''20240102_1_T1.wav'') = u ''audio_files/20240102_1_T1.wav''"
           "path_join output_directory (u ''20240102_2_T2.wav'') = u ''audio_files/20240102_2_T2.wav''"
           "path_join output_directory (u ''20240102_3_T3.wav'') = u ''audio_files/20240102_3_T3.wav''"
    by (simp_all add: output_directory_def path_join_def startswith_def endswith_def)
  have sp: "speech_ok ?w = (\<lambda>t p. p \<noteq> u ''audio_files/20240102_2_T2.wav'')"
    by (simp add: example_world_def)
  have e: "map_option audio_file (entry_of ?w (Suc 0) (?a ''T1''))
             = Some (u ''audio_files/20240102_1_T1.wav'')"
          "entry_of ?w 2 (?a ''T2'') = None"
          "map_option audio_file (entry_of ?w 3 (?a ''T3''))
             = Some (u ''audio_files/20240102_3_T3.wav'')"
    unfolding entry_of_def f pj sp by (simp_all add: Let_def)
  from synthesis_failures_skipped [of ?w ?cols] l ne
  have p: "process_daily_columns_enhanced ?w
        = (map Audio (List.map_filter (\<lambda>(j, c). entry_of ?w j c) (numbered 1 ?cols)),
           ListColumns # concat (map (\<lambda>(j, c). column_events ?w j c) (numbered 1 ?cols)))"
    by blast
  have 1: "map title (get_daily_sabah_columns_enhanced ?w) = [u ''T1'', u ''T2'', u ''T3'']"
    unfolding l by simp
  have 2: "map (\<lambda>x. case x of Audio e \<Rightarrow> audio_file e | Demo p \<Rightarrow> p)
             (fst (process_daily_columns_enhanced ?w))
           = [u ''audio_files/20240102_1_T1.wav'', u ''audio_files/20240102_3_T3.wav'']"
    unfolding p n using e by (auto simp: comp_def split: option.splits)
  have 3: "snd (process_daily_columns_enhanced ?w)
     = [ListColumns,
        Speech (u ''Hello.'' @ [10] @ u ''World.'') (u ''20240102_1_T1.wav''),
        Speech (u ''Hello.'' @ [10] @ u ''World.'') (u ''20240102_2_T2.wav''),
        ColumnFailed (u ''T2''),
        Speech (u ''Hello.'' @ [10] @ u ''World.'') (u ''20240102_3_T3.wav'')]"
    unfolding p n using e by (auto simp: column_events_def f [simplified])
  have fe: "makedirs_ok example_el_world" "folder_exists example_el_world"
           "text_files example_el_world \<noteq> []"
    by (simp_all add: example_el_world_def)
  have st: "strip (u ''Hi there. Go! Now  '') = u ''Hi there. Go! Now''" "strip (u ''ok'') = u ''ok''"
    by (simp_all add: strip_def is_space_def)
  have sx: "split_text (u ''Hi there. Go! Now'') 7 = [u ''Hi there'', u ''Go. Now'']"
    by (simp add: split_text_def match_at_def is_term_def is_space_def strip_def)
  have pa: "part_jobs (u ''audio_news'') (u ''a'') 0 [u ''Hi there'', u ''Go. Now'']
              = [(u ''Hi there'', u ''audio_news/a_part01.mp3''),
                 (u ''Go. Now'', u ''audio_news/a_part02.mp3'')]"
    by (simp add: part_jobs_Cons part_jobs_Nil format_02d_def str_of_nat_digit path_join_def
        startswith_def endswith_def)
  have pc: "path_join (u ''audio_news'') (u ''c'' @ u ''.mp3'') = u ''audio_news/c.mp3''"
    by (simp add: path_join_def startswith_def endswith_def)
  have fj: "file_jobs (u ''audio_news'') 7 (u ''a'', Inr (u ''Hi there. Go! Now  ''))
              = Some [(u ''Hi there'', u ''audio_news/a_part01.mp3''),
                      (u ''Go. Now'', u ''audio_news/a_part02.mp3'')]"
           "file_jobs (u ''audio_news'') 7 (u ''b'', Inl OSError) = None"
           "file_jobs (u ''audio_news'') 7 (u ''c'', Inr (u ''ok''))
              = Some [(u ''ok'', u ''audio_news/c.mp3'')]"
    unfolding file_jobs_def snd_conv fst_conv sum.case st Let_def sx pa pc
    by simp_all
  have j: "all_jobs (u ''audio_news'') 7 (text_files example_el_world)
             = [(u ''Hi there'', u ''audio_news/a_part01.mp3''),
                (u ''Go. Now'', u ''audio_news/a_part02.mp3''),
                (u ''ok'', u ''audio_news/c.mp3'')]"
    by (simp add: example_el_world_def all_jobs_def fj [simplified])
  have b: "length (filter (\<lambda>f. file_jobs (u ''audio_news'') 7 f = None)
                          (text_files example_el_world)) = 1"
    by (simp add: example_el_world_def fj [simplified])
  from synthesis_failures_skipped [of _ _ example_el_world "u ''audio_news''" 7] fe
  have "process_news_articles example_el_world (u ''audio_news'') 7
        = Inr (Some \<lparr>successful =
                   length (filter (job_ok example_el_world)
                             (all_jobs (u ''audio_news'') 7 (text_files example_el_world))),
                 failed =
                   length (filter (\<lambda>j. \<not> job_ok example_el_world j)
                                  (all_jobs (u ''audio_news'') 7 (text_files example_el_world)))
                   + length (filter (\<lambda>f. file_jobs (u ''audio_news'') 7 f = None)
                                    (text_files example_el_world))\<rparr>,
           map (\<lambda>j. Speech (fst j) (snd j))
               (all_jobs (u ''audio_news'') 7 (text_files example_el_world)))"
    by blast
  then have 4: "process_news_articles example_el_world (u ''audio_news'') 7
     = Inr (Some \<lparr>successful = 2, failed = 2\<rparr>,
        [Speech (u ''Hi there'') (u ''audio_news/a_part01.mp3''),
         Speech (u ''Go. Now'') (u ''audio_news/a_part02.mp3''),
         Speech (u ''ok'') (u ''audio_news/c.mp3'')])"
    unfolding j b by (simp add: job_ok_def example_el_world_def)
  show ?thesis using 1 2 3 4 by (intro conjI)
qed

subsection \<open>Claim C10\<close>

text \<open>
  C10.  In news\_tts\_app\_enhanced.py the lister accepts an extracted content by comparing
  it with the sentinel string.  No article the lister returns has the sentinel string as
  its content: a genuine article whose text is exactly that phrase is left out.  In the
  fallback path the lister returns the articles of the links it accepts, in document order,
  up to the cap, and a link whose page is fetched is accepted exactly when the content is
  not empty and not the sentinel.  In the card path the same holds of the cards, for the
  cards up to a point where the loop has stopped at the cap or has come to the end of the
  cards, none of them with a link without \<open>href\<close>.  So an article that is accepted
  before the cap is reached is in the list that is returned.
\<close>

theorem sentinel_equality_decides:
  "(\<forall>a\<in>set (get_daily_sabah_columns_enhanced w).
       content a \<noteq> u ''Content could not be extracted'')
   \<and> (http_get w NEWS_SOURCE_url = Inr response \<and> status_ok response
        \<and> parsed response = Inr soup \<and> select soup selectors_article_cards = []
      \<longrightarrow> get_daily_sabah_columns_enhanced w
            = take max_columns_per_day
                (List.map_filter (link_step w) (find_all_href soup (u ''a'')))
          \<and> (\<forall>xs k ys a. find_all_href soup (u ''a'') = xs @ k # ys \<and> link_step w k = Some a
                 \<and> length (filter (\<lambda>x. link_step w x \<noteq> None) xs) < max_columns_per_day
               \<longrightarrow> a \<in> set (get_daily_sabah_columns_enhanced w)))
   \<and> (get_attr k (u ''href'') = Some h \<and> h \<noteq> [] \<and> contains (u ''/columns/'') h
      \<and> \<not> endswith h (u ''/columns'') \<and> length (strip (get_text k)) > 10
      \<and> get_column_content_enhanced w (full_url_of h) = Some b'
     \<longrightarrow> (b' = u ''Content could not be extracted'' \<longrightarrow> link_step w k = None)
       \<and> (b' \<noteq> u ''Content could not be extracted'' \<and> b' \<noteq> []
            \<longrightarrow> (\<exists>a. link_step w k = Some a \<and> content a = b')))
   \<and> (http_get w NEWS_SOURCE_url = Inr response \<and> status_ok response
        \<and> parsed response = Inr soup \<and> select soup selectors_article_cards = pre @ post
        \<and> pre @ post \<noteq> [] \<and> (\<forall>c\<in>set pre. \<not> card_raises c)
        \<and> (post = [] \<or> max_columns_per_day \<le> length (filter (qualifies w) pre))
      \<longrightarrow> get_daily_sabah_columns_enhanced w
            = take max_columns_per_day (List.map_filter (step_article w) pre)
          \<and> (\<forall>xs c ys a. pre = xs @ c # ys \<and> step_article w c = Some a
                 \<and> length (filter (qualifies w) xs) < max_columns_per_day
               \<longrightarrow> a \<in> set (get_daily_sabah_columns_enhanced w)))
   \<and> (select_one c selectors_title = Some te \<and> select_one c selectors_link = Some le
      \<and> get_attr le (u ''href'') = Some l
      \<and> get_column_content_enhanced w (full_url_of l) = Some b
     \<longrightarrow> (b = u ''Content could not be extracted''
            \<longrightarrow> card_step w c = Inr None \<and> step_article w c = None)
       \<and> (b \<noteq> u ''Content could not be extracted'' \<and> b \<noteq> []
            \<longrightarrow> (\<exists>a. card_step w c = Inr (Some a) \<and> step_article w c = Some a
                      \<and> content a = b)))"
proof -
  have 1: "\<forall>a\<in>set (get_daily_sabah_columns_enhanced w).
         content a \<noteq> u ''Content could not be extracted''"
    using lister_contents [of w] by (simp add: sentinel_def)
  have 2: "get_daily_sabah_columns_enhanced w
            = take max_columns_per_day
                (List.map_filter (link_step w) (find_all_href soup (u ''a'')))
          \<and> (\<forall>xs k ys a. find_all_href soup (u ''a'') = xs @ k # ys \<and> link_step w k = Some a
                 \<and> length (filter (\<lambda>x. link_step w x \<noteq> None) xs) < max_columns_per_day
               \<longrightarrow> a \<in> set (get_daily_sabah_columns_enhanced w))"
    if f: "http_get w NEWS_SOURCE_url = Inr response" "status_ok response"
       "parsed response = Inr soup" "select soup selectors_article_cards = []"
  proof -
    have e: "get_daily_sabah_columns_enhanced w
            = take max_columns_per_day
                (List.map_filter (link_step w) (find_all_href soup (u ''a'')))"
      using f by (rule lister_fallback)
    have "a \<in> set (get_daily_sabah_columns_enhanced w)"
      if "find_all_href soup (u ''a'') = xs @ k # ys" "link_step w k = Some a"
         "length (filter (\<lambda>x. link_step w x \<noteq> None) xs) < max_columns_per_day"
      for xs k ys a
    proof (rule take_map_filter_member [of _ max_columns_per_day "link_step w" xs k ys])
      show "get_daily_sabah_columns_enhanced w
              = take max_columns_per_day (List.map_filter (link_step w) (xs @ k # ys))"
        using e that(1) by simp
    qed (use that in simp_all)
    then show ?thesis using e by blast
  qed
  have 3: "get_attr k (u ''href'') = Some h \<and> h \<noteq> [] \<and> contains (u ''/columns/'') h
      \<and> \<not> endswith h (u ''/columns'') \<and> length (strip (get_text k)) > 10
      \<and> get_column_content_enhanced w (full_url_of h) = Some b'
     \<longrightarrow> (b' = u ''Content could not be extracted'' \<longrightarrow> link_step w k = None)
       \<and> (b' \<noteq> u ''Content could not be extracted'' \<and> b' \<noteq> []
            \<longrightarrow> (\<exists>a. link_step w k = Some a \<and> content a = b'))"
    using link_step_href [of k h w] by (auto simp: sentinel_def)
  have q: "(\<lambda>c. step_article w c \<noteq> None) = qualifies w"
    by (rule ext) (rule step_article_qualifies)
  have 4: "get_daily_sabah_columns_enhanced w
            = take max_columns_per_day (List.map_filter (step_article w) pre)
          \<and> (\<forall>xs c ys a. pre = xs @ c # ys \<and> step_article w c = Some a
                 \<and> length (filter (qualifies w) xs) < max_columns_per_day
               \<longrightarrow> a \<in> set (get_daily_sabah_columns_enhanced w))"
    if f: "http_get w NEWS_SOURCE_url = Inr response" "status_ok response"
       "parsed response = Inr soup" "select soup selectors_article_cards = pre @ post"
       "pre @ post \<noteq> []" "\<forall>c\<in>set pre. \<not> card_raises c"
       "post = [] \<or> max_columns_per_day \<le> length (filter (qualifies w) pre)"
  proof -
    have e: "get_daily_sabah_columns_enhanced w
            = take max_columns_per_day (List.map_filter (step_article w) pre)"
      using f by (rule lister_cards_prefix)
    have "a \<in> set (get_daily_sabah_columns_enhanced w)"
      if "pre = xs @ c # ys" "step_article w c = Some a"
         "length (filter (qualifies w) xs) < max_columns_per_day" for xs c ys a
    proof (rule take_map_filter_member [of _ max_columns_per_day "step_article w" xs c ys])
      show "get_daily_sabah_columns_enhanced w
              = take max_columns_per_day (List.map_filter (step_article w) (xs @ c # ys))"
        using e that(1) by simp
      show "step_article w c = Some a" by (rule that(2))
      show "length (filter (\<lambda>x. step_article w x \<noteq> None) xs) < max_columns_per_day"
        unfolding q by (rule that(3))
    qed
    then show ?thesis using e by blast
  qed
  have 5: "select_one c selectors_title = Some te \<and> select_one c selectors_link = Some le
      \<and> get_attr le (u ''href'') = Some l
      \<and> get_column_content_enhanced w (full_url_of l) = Some b
     \<longrightarrow> (b = u ''Content could not be extracted''
            \<longrightarrow> card_step w c = Inr None \<and> step_article w c = None)
       \<and> (b \<noteq> u ''Content could not be extracted'' \<and> b \<noteq> []
            \<longrightarrow> (\<exists>a. card_step w c = Inr (Some a) \<and> step_article w c = Some a
                      \<and> content a = b))"
    using card_step_href [of c te le l w] by (auto simp: sentinel_def step_article_def)
  show ?thesis
  proof (intro conjI)
    show "\<forall>a\<in>set (get_daily_sabah_columns_enhanced w).
            content a \<noteq> u ''Content could not be extracted''" by (rule 1)
  qed (use 2 3 4 5 in blast)+
qed

text \<open>
  The page at \<open>/columns/s\<close> is a genuine article: its container matches the first
  selector and its one paragraph reads \<open>Content could not be extracted\<close>.  A listing
  without cards, with a link to it and a link to another article: the fallback path
  returns the second only.  A listing of two cards that link to the same two pages: the
  card path returns the second only.
\<close>

theorem sentinel_equality_decides_witness:
  "column_content page_sentinel_text content_selectors = paragraphs_text
       (Tag (u ''div'') [u ''article-content''] [] [para ''Content could not be extracted''])
   \<and> get_daily_sabah_columns_enhanced
       (example_world (example_net [example_link ''A genuine article'' ''/columns/s'',
                                     example_link ''A column that is there'' ''/columns/a''])
          (\<lambda>t p. True))
     = [\<lparr>title = u ''A column that is there'', author = u ''Unknown'',
         url = u ''https://www.dailysabah.com/columns/a'',
         content = u ''Hello.'' @ [10] @ u ''World.'', date = u ''2024-01-02''\<rparr>]
   \<and> get_daily_sabah_columns_enhanced
       (example_world (example_net [example_card ''Genuine'' ''/columns/s'',
                                     example_card ''T1'' ''/columns/a'']) (\<lambda>t p. True))
     = [\<lparr>title = u ''T1'', author = u ''Unknown'',
         url = u ''https://www.dailysabah.com/columns/a'',
         content = u ''Hello.'' @ [10] @ u ''World.'', date = u ''2024-01-02''\<rparr>]"
proof -
  let ?links = "[example_link ''A genuine article'' ''/columns/s'',
                 example_link ''A column that is there'' ''/columns/a'']"
  let ?v = "example_world (example_net ?links) (\<lambda>t p. True)"
  let ?rv = "\<lparr>status_ok = True, parsed = Inr (document ?links)\<rparr>"
  let ?cards = "[example_card ''Genuine'' ''/columns/s'', example_card ''T1'' ''/columns/a'']"
  let ?w = "example_world (example_net ?cards) (\<lambda>t p. True)"
  let ?rw = "\<lparr>status_ok = True, parsed = Inr (document ?cards)\<rparr>"
  have 1: "column_content page_sentinel_text content_selectors = paragraphs_text
       (Tag (u ''div'') [u ''article-content''] [] [para ''Content could not be extracted''])"
    by (simp add: html_eval lister_eval)
  have fv: "http_get ?v NEWS_SOURCE_url = Inr ?rv \<and> status_ok ?rv
        \<and> parsed ?rv = Inr (document ?links)
        \<and> select (document ?links) selectors_article_cards = []"
    by (simp add: html_eval lister_eval example_link_def)
  have lv: "find_all_href (document ?links) (u ''a'') = ?links"
    by (simp add: html_eval lister_eval example_link_def)
  have "get_daily_sabah_columns_enhanced ?v
          = take max_columns_per_day
              (List.map_filter (link_step ?v) (find_all_href (document ?links) (u ''a'')))"
    using sentinel_equality_decides
            [where w = ?v and response = ?rv and soup = "document ?links"] fv
    by blast
  moreover have "List.map_filter (link_step ?v) ?links
     = [\<lparr>title = u ''A column that is there'', author = u ''Unknown'',
         url = u ''https://www.dailysabah.com/columns/a'',
         content = u ''Hello.'' @ [10] @ u ''World.'', date = u ''2024-01-02''\<rparr>]"
    by (simp add: html_eval lister_eval example_link_def)
  ultimately have 2: "get_daily_sabah_columns_enhanced ?v
     = [\<lparr>title = u ''A column that is there'', author = u ''Unknown'',
         url = u ''https://www.dailysabah.com/columns/a'',
         content = u ''Hello.'' @ [10] @ u ''World.'', date = u ''2024-01-02''\<rparr>]"
    unfolding lv by (simp add: max_columns_per_day_def)
  have fw: "http_get ?w NEWS_SOURCE_url = Inr ?rw \<and> status_ok ?rw
        \<and> parsed ?rw = Inr (document ?cards)
        \<and> select (document ?cards) selectors_article_cards = ?cards @ []
        \<and> ?cards @ [] \<noteq> [] \<and> (\<forall>c\<in>set ?cards. \<not> card_raises c)
        \<and> ([] = [] \<or> max_columns_per_day \<le> length (filter (qualifies ?w) ?cards))"
    by (simp add: html_eval lister_eval)
  have "get_daily_sabah_columns_enhanced ?w
          = take max_columns_per_day (List.map_filter (step_article ?w) ?cards)"
    using sentinel_equality_decides
            [where w = ?w and response = ?rw and soup = "document ?cards"
               and pre = ?cards and post = "[]"] fw
    by blast
  moreover have "List.map_filter (step_article ?w) ?cards
     = [\<lparr>title = u ''T1'', author = u ''Unknown'',
         url = u ''https://www.dailysabah.com/columns/a'',
         content = u ''Hello.'' @ [10] @ u ''World.'', date = u ''2024-01-02''\<rparr>]"
    by (simp add: html_eval lister_eval)
  ultimately have 3: "get_daily_sabah_columns_enhanced ?w
     = [\<lparr>title = u ''T1'', author = u ''Unknown'',
         url = u ''https://www.dailysabah.com/columns/a'',
         content = u ''Hello.'' @ [10] @ u ''World.'', date = u ''2024-01-02''\<rparr>]"
    by (simp add: max_columns_per_day_def)
  show ?thesis using 1 2 3 by (intro conjI)
qed

end
